theory Spec2Isabelle
  imports Complex_Main
begin

section \<open>JavaScript numbers\<close>

text \<open>
  The animation in \<^verbatim>\<open>source/js/canvasHeader.js\<close> computes with JavaScript numbers.
  They are modelled as the real numbers extended by the three special values a
  division by zero or a failed parse can produce. Rounding, overflow to infinity
  and the sign of zero are not modelled: a finite value is an exact real.
  An absent numeric argument (\<^verbatim>\<open>undefined\<close>) behaves like \<^verbatim>\<open>NaN\<close> at every place the
  program uses one (\<^verbatim>\<open>x || 0\<close>, \<^verbatim>\<open>isNaN(x)\<close>, arithmetic), so it is represented by
  \<open>NaN\<close>.
\<close>

datatype jsnum = Num real | PosInf | NegInf | NaN

fun isNaN :: "jsnum \<Rightarrow> bool" where
  "isNaN NaN = True"
| "isNaN _ = False"

text \<open>The infinity of the sign of a non-zero real.\<close>

definition signedInf :: "real \<Rightarrow> jsnum" where
  "signedInf a = (if 0 < a then PosInf else NegInf)"

fun jneg :: "jsnum \<Rightarrow> jsnum" where
  "jneg (Num a) = Num (- a)"
| "jneg PosInf = NegInf"
| "jneg NegInf = PosInf"
| "jneg NaN = NaN"

fun jadd :: "jsnum \<Rightarrow> jsnum \<Rightarrow> jsnum" where
  "jadd (Num a) (Num b) = Num (a + b)"
| "jadd NaN _ = NaN"
| "jadd _ NaN = NaN"
| "jadd PosInf NegInf = NaN"
| "jadd NegInf PosInf = NaN"
| "jadd PosInf _ = PosInf"
| "jadd NegInf _ = NegInf"
| "jadd (Num a) PosInf = PosInf"
| "jadd (Num a) NegInf = NegInf"

definition jsub :: "jsnum \<Rightarrow> jsnum \<Rightarrow> jsnum" where
  "jsub a b = jadd a (jneg b)"

fun jmul :: "jsnum \<Rightarrow> jsnum \<Rightarrow> jsnum" where
  "jmul (Num a) (Num b) = Num (a * b)"
| "jmul NaN _ = NaN"
| "jmul _ NaN = NaN"
| "jmul PosInf PosInf = PosInf"
| "jmul PosInf NegInf = NegInf"
| "jmul NegInf PosInf = NegInf"
| "jmul NegInf NegInf = PosInf"
| "jmul PosInf (Num b) = (if b = 0 then NaN else signedInf b)"
| "jmul NegInf (Num b) = (if b = 0 then NaN else signedInf (- b))"
| "jmul (Num a) PosInf = (if a = 0 then NaN else signedInf a)"
| "jmul (Num a) NegInf = (if a = 0 then NaN else signedInf (- a))"

fun jdiv :: "jsnum \<Rightarrow> jsnum \<Rightarrow> jsnum" where
  "jdiv (Num a) (Num b) =
     (if b = 0 then (if a = 0 then NaN else signedInf a) else Num (a / b))"
| "jdiv NaN _ = NaN"
| "jdiv _ NaN = NaN"
| "jdiv (Num a) _ = Num 0"
| "jdiv PosInf (Num b) = (if b < 0 then NegInf else PosInf)"
| "jdiv NegInf (Num b) = (if b < 0 then PosInf else NegInf)"
| "jdiv _ _ = NaN"

text \<open>\<^verbatim>\<open>a < b\<close> and \<^verbatim>\<open>a > b\<close>: every comparison with \<^verbatim>\<open>NaN\<close> is false.\<close>

fun jlt :: "jsnum \<Rightarrow> jsnum \<Rightarrow> bool" where
  "jlt (Num a) (Num b) = (a < b)"
| "jlt NaN _ = False"
| "jlt _ NaN = False"
| "jlt _ NegInf = False"
| "jlt PosInf _ = False"
| "jlt NegInf _ = True"
| "jlt (Num a) PosInf = True"

definition jgt :: "jsnum \<Rightarrow> jsnum \<Rightarrow> bool" where
  "jgt a b = jlt b a"

text \<open>\<^verbatim>\<open>a || b\<close> on numbers: \<^verbatim>\<open>0\<close> and \<^verbatim>\<open>NaN\<close> (and \<^verbatim>\<open>undefined\<close>) are falsy.\<close>

fun truthy :: "jsnum \<Rightarrow> bool" where
  "truthy (Num a) = (a \<noteq> 0)"
| "truthy NaN = False"
| "truthy _ = True"

definition jor :: "jsnum \<Rightarrow> jsnum \<Rightarrow> jsnum" where
  "jor a b = (if truthy a then a else b)"

fun Math_abs :: "jsnum \<Rightarrow> jsnum" where
  "Math_abs (Num a) = Num \<bar>a\<bar>"
| "Math_abs NaN = NaN"
| "Math_abs _ = PosInf"

fun Math_sqrt :: "jsnum \<Rightarrow> jsnum" where
  "Math_sqrt (Num a) = (if a < 0 then NaN else Num (sqrt a))"
| "Math_sqrt PosInf = PosInf"
| "Math_sqrt _ = NaN"

text \<open>\<^verbatim>\<open>Math.pow(x, n)\<close> for a natural exponent (the program only squares).\<close>

fun Math_pow :: "jsnum \<Rightarrow> nat \<Rightarrow> jsnum" where
  "Math_pow a 0 = Num 1"
| "Math_pow a (Suc n) = jmul a (Math_pow a n)"

fun Math_floor :: "jsnum \<Rightarrow> jsnum" where
  "Math_floor (Num a) = Num (of_int \<lfloor>a\<rfloor>)"
| "Math_floor v = v"

subsection \<open>\<^verbatim>\<open>parseInt(v, 10)\<close> of a number\<close>

text \<open>
  \<^verbatim>\<open>parseInt\<close> converts its argument to a string and reads the leading integer. A
  number prints in decimal notation when it is zero or its magnitude is in
  \<open>[10\<^sup>-\<^sup>6, 10\<^sup>2\<^sup>1)\<close>, and then the integer read is the number truncated toward zero.
  Outside that range it prints as \<^verbatim>\<open>d.ddde+N\<close>, and the integer read is its first
  significant digit with the number's sign. \<^verbatim>\<open>NaN\<close> and the infinities print as words,
  which parse to \<^verbatim>\<open>NaN\<close>.
\<close>

definition trunc :: "real \<Rightarrow> int" where
  "trunc a = (if a < 0 then \<lceil>a\<rceil> else \<lfloor>a\<rfloor>)"

text \<open>
  The first significant digit of a positive real: scale by ten until the value is
  in \<open>[1, 10)\<close>, then take its integer part.
\<close>

function leadDigitDown :: "real \<Rightarrow> int" where
  "leadDigitDown a = (if 10 \<le> a then leadDigitDown (a / 10) else \<lfloor>a\<rfloor>)"
  by pat_completeness auto

termination
proof (relation "measure (\<lambda>a. nat \<lceil>a\<rceil>)")
  show "wf (measure (\<lambda>a::real. nat \<lceil>a\<rceil>))" by simp
next
  fix a :: real
  assume a: "10 \<le> a"
  have "a / 10 \<le> a - 1" using a by simp
  then have "\<lceil>a / 10\<rceil> \<le> \<lceil>a - 1\<rceil>" by (rule ceiling_mono)
  then have "\<lceil>a / 10\<rceil> < \<lceil>a\<rceil>" by simp
  moreover have "0 < \<lceil>a\<rceil>" using a by simp
  ultimately show "(a / 10, a) \<in> measure (\<lambda>a. nat \<lceil>a\<rceil>)" by simp
qed

declare leadDigitDown.simps [simp del]

function leadDigitUp :: "real \<Rightarrow> int" where
  "leadDigitUp a = (if 0 < a \<and> a < 1 then leadDigitUp (a * 10) else \<lfloor>a\<rfloor>)"
  by pat_completeness auto

termination
proof (relation "measure (\<lambda>a. nat \<lceil>1 / a\<rceil>)")
  show "wf (measure (\<lambda>a::real. nat \<lceil>1 / a\<rceil>))" by simp
next
  fix a :: real
  assume a: "0 < a \<and> a < 1"
  define t where "t = 1 / a"
  have t: "1 < t" using a by (simp add: t_def)
  have s: "1 / (a * 10) = t / 10" by (simp add: t_def)
  have "t \<le> of_int \<lceil>t\<rceil>" by (rule le_of_int_ceiling)
  then have two: "2 \<le> \<lceil>t\<rceil>" using t by linarith
  have "of_int \<lceil>t / 10\<rceil> < t / 10 + 1" by linarith
  moreover have "t / 10 + 1 \<le> t \<or> t < 2" by linarith
  ultimately have "\<lceil>t / 10\<rceil> < \<lceil>t\<rceil>" using two by linarith
  then show "(a * 10, a) \<in> measure (\<lambda>a. nat \<lceil>1 / a\<rceil>)"
    using two by (simp add: s t_def [symmetric])
qed

declare leadDigitUp.simps [simp del]

definition leadDigit :: "real \<Rightarrow> int" where
  "leadDigit a = (if 1 \<le> a then leadDigitDown a else leadDigitUp a)"

definition decimalNotation :: "real \<Rightarrow> bool" where
  "decimalNotation a = (a = 0 \<or> (1 / 10 ^ 6 \<le> \<bar>a\<bar> \<and> \<bar>a\<bar> < 10 ^ 21))"

fun parseInt :: "jsnum \<Rightarrow> jsnum" where
  "parseInt (Num a) =
     (if decimalNotation a then Num (of_int (trunc a))
      else Num (of_int ((if a < 0 then - 1 else 1) * leadDigit \<bar>a\<bar>)))"
| "parseInt _ = NaN"

section \<open>Helpers, points and vectors\<close>

text \<open>\<^verbatim>\<open>limit(value, min, max)\<close>, lines 22-30.\<close>

definition limit :: "jsnum \<Rightarrow> jsnum \<Rightarrow> jsnum \<Rightarrow> jsnum" where
  "limit v lo hi = (if jlt v lo then lo else if jgt v hi then hi else v)"

text \<open>
  \<^verbatim>\<open>Point\<close> and \<^verbatim>\<open>Vector\<close> objects hold two numbers \<^verbatim>\<open>x\<close> and \<^verbatim>\<open>y\<close> (fields \<open>px\<close>, \<open>py\<close> and
  \<open>vx\<close>, \<open>vy\<close>). Both constructors store \<^verbatim>\<open>x || 0\<close> and \<^verbatim>\<open>y || 0\<close>.
\<close>

record point =
  px :: jsnum
  py :: jsnum

record vector =
  vx :: jsnum
  vy :: jsnum

definition Point :: "jsnum \<Rightarrow> jsnum \<Rightarrow> point" where
  "Point a b = \<lparr>px = jor a (Num 0), py = jor b (Num 0)\<rparr>"

definition Vector :: "jsnum \<Rightarrow> jsnum \<Rightarrow> vector" where
  "Vector a b = \<lparr>vx = jor a (Num 0), vy = jor b (Num 0)\<rparr>"

definition move :: "point \<Rightarrow> vector \<Rightarrow> point" where
  "move p v = Point (jadd (px p) (vx v)) (jadd (py p) (vy v))"

definition fromPoints :: "point \<Rightarrow> point \<Rightarrow> vector" where
  "fromPoints p1 p2 = Vector (jsub (px p1) (px p2)) (jsub (py p1) (py p2))"

definition getDistance :: "vector \<Rightarrow> jsnum" where
  "getDistance v = Math_abs (Math_sqrt (jadd (Math_pow (vx v) 2) (Math_pow (vy v) 2)))"

definition normalized :: "vector \<Rightarrow> vector" where
  "normalized v = (let dist = getDistance v in Vector (jdiv (vx v) dist) (jdiv (vy v) dist))"

definition multiply :: "vector \<Rightarrow> vector \<Rightarrow> vector" where
  "multiply v w = Vector (jmul (vx v) (vx w)) (jmul (vy v) (vy w))"

section \<open>Colors\<close>

text \<open>
  A \<^verbatim>\<open>Color\<close> object has the backing fields \<^verbatim>\<open>_r\<close>, \<^verbatim>\<open>_g\<close>, \<^verbatim>\<open>_b\<close> (here \<open>c_r\<close>, \<open>c_g\<close>,
  \<open>c_b\<close>); the properties \<^verbatim>\<open>r\<close>, \<^verbatim>\<open>g\<close>, \<^verbatim>\<open>b\<close> read them back unchanged and write them
  through \<^verbatim>\<open>limit(parseInt(v, 10), 0, 255)\<close> (lines 204-223).
\<close>

record color =
  c_r :: jsnum
  c_g :: jsnum
  c_b :: jsnum

definition set_r :: "jsnum \<Rightarrow> color \<Rightarrow> color" where
  "set_r v c = c\<lparr>c_r := limit (parseInt v) (Num 0) (Num 255)\<rparr>"

definition set_g :: "jsnum \<Rightarrow> color \<Rightarrow> color" where
  "set_g v c = c\<lparr>c_g := limit (parseInt v) (Num 0) (Num 255)\<rparr>"

definition set_b :: "jsnum \<Rightarrow> color \<Rightarrow> color" where
  "set_b v c = c\<lparr>c_b := limit (parseInt v) (Num 0) (Num 255)\<rparr>"

text \<open>The constructor, lines 193-202: zero the fields, then assign through the setters.\<close>

definition Color :: "jsnum \<Rightarrow> jsnum \<Rightarrow> jsnum \<Rightarrow> color" where
  "Color r g b =
     set_b (jor b (Num 0)) (set_g (jor g (Num 0)) (set_r (jor r (Num 0))
       \<lparr>c_r = Num 0, c_g = Num 0, c_b = Num 0\<rparr>))"

text \<open>
  \<^verbatim>\<open>n.toString(16)\<close>. For an integer it is the digits of its magnitude in base 16
  after its sign. The rendering of a finite number that is not an integer is left
  to the host by the language standard, so it is a parameter \<open>render\<close> of the model.
\<close>

definition hexDigit :: "nat \<Rightarrow> char" where
  "hexDigit d = ''0123456789abcdef'' ! d"

fun hexOf :: "nat \<Rightarrow> string" where
  "hexOf n = (if n < 16 then [hexDigit n] else hexOf (n div 16) @ [hexDigit (n mod 16)])"

declare hexOf.simps [simp del]

fun toString16 :: "(real \<Rightarrow> string) \<Rightarrow> jsnum \<Rightarrow> string" where
  "toString16 render (Num a) =
     (if of_int \<lfloor>a\<rfloor> = a
      then (if a < 0 then ''-'' @ hexOf (nat \<lfloor>- a\<rfloor>) else hexOf (nat \<lfloor>a\<rfloor>))
      else render a)"
| "toString16 render NaN = ''NaN''"
| "toString16 render PosInf = ''Infinity''"
| "toString16 render NegInf = ''-Infinity''"

text \<open>\<^verbatim>\<open>Color.prototype.getHexCode\<close>, lines 229-238.\<close>

definition getHexCode :: "(real \<Rightarrow> string) \<Rightarrow> color \<Rightarrow> string" where
  "getHexCode render c =
     (let code = ''#'';
          code = (if jlt (c_r c) (Num 16) then code @ ''0'' else code);
          code = code @ toString16 render (c_r c);
          code = (if jlt (c_g c) (Num 16) then code @ ''0'' else code);
          code = code @ toString16 render (c_g c);
          code = (if jlt (c_b c) (Num 16) then code @ ''0'' else code);
          code = code @ toString16 render (c_b c)
      in code)"

text \<open>
  The values a channel holds by the data model: an integer from 0 to 255.
\<close>

definition channel :: "jsnum \<Rightarrow> bool" where
  "channel v = (\<exists>n::int. 0 \<le> n \<and> n \<le> 255 \<and> v = Num (of_int n))"

definition validColor :: "color \<Rightarrow> bool" where
  "validColor c = (channel (c_r c) \<and> channel (c_g c) \<and> channel (c_b c))"

section \<open>Random numbers and random colors\<close>

text \<open>
  \<^verbatim>\<open>Math.random()\<close> is the host's random source. Its successive results are a
  sequence \<open>rnd\<close> of reals, and a counter of the calls made so far is passed along.
  The host promises \<open>0 \<le> rnd i < 1\<close> (\<open>unitInterval\<close>).
\<close>

definition unitInterval :: "(nat \<Rightarrow> real) \<Rightarrow> bool" where
  "unitInterval rnd = (\<forall>i. 0 \<le> rnd i \<and> rnd i < 1)"

definition Math_random :: "(nat \<Rightarrow> real) \<Rightarrow> nat \<Rightarrow> jsnum \<times> nat" where
  "Math_random rnd k = (Num (rnd k), Suc k)"

text \<open>\<^verbatim>\<open>getRandomInt(min, max)\<close>, lines 248-250.\<close>

definition getRandomInt :: "(nat \<Rightarrow> real) \<Rightarrow> nat \<Rightarrow> jsnum \<Rightarrow> jsnum \<Rightarrow> jsnum \<times> nat" where
  "getRandomInt rnd k lo hi =
     (let (u, k) = Math_random rnd k
      in (jadd (Math_floor (jmul u (jadd (jsub hi lo) (Num 1)))) lo, k))"

text \<open>
  \<^verbatim>\<open>getRandomColor(color, randomness)\<close>, lines 259-269. An absent color is \<open>None\<close>.
\<close>

definition getRandomColor ::
  "(nat \<Rightarrow> real) \<Rightarrow> nat \<Rightarrow> color option \<Rightarrow> jsnum \<Rightarrow> color \<times> nat" where
  "getRandomColor rnd k color randomness =
     (let color = (case color of None \<Rightarrow> Color NaN NaN NaN | Some c \<Rightarrow> c);
          randomness = (if isNaN randomness then Num 100 else randomness);
          f = jdiv randomness (Num 100);
          (r, k) = getRandomInt rnd k (jmul (c_r color) (jsub (Num 1) f))
                     (jadd (c_r color) (jmul (jsub (Num 255) (c_r color)) f));
          (g, k) = getRandomInt rnd k (jmul (c_g color) (jsub (Num 1) f))
                     (jadd (c_g color) (jmul (jsub (Num 255) (c_g color)) f));
          (b, k) = getRandomInt rnd k (jmul (c_b color) (jsub (Num 1) f))
                     (jadd (c_b color) (jmul (jsub (Num 255) (c_b color)) f))
      in (Color r g b, k))"

section \<open>The grid\<close>

text \<open>
  A grid node is the object literal of lines 302-307: \<^verbatim>\<open>_color\<close> (here \<open>base_color\<close>),
  \<^verbatim>\<open>color\<close>, \<^verbatim>\<open>orgPos\<close> and \<^verbatim>\<open>currPos\<close>. \<^verbatim>\<open>newGrid\<close> stores a separate \<^verbatim>\<open>Point\<close> object in
  each of the two position fields, and a separate \<^verbatim>\<open>Color\<close> object in each of the two
  color fields, so a node is modelled by the values of its four fields. The grid is
  an array of lines, each an array of nodes.
\<close>

record node =
  base_color :: color
  color :: color
  orgPos :: point
  currPos :: point

type_synonym grid = "node list list"

record canvas =
  width :: nat
  height :: nat

record settings =
  posRandomness :: jsnum
  startColor :: "color option"
  startColorRandomness :: jsnum
  overTimeColorRandomness :: jsnum
  gridSize :: jsnum

datatype error = RangeError | TypeError

text \<open>
  \<^verbatim>\<open>new Array(len)\<close> throws a \<^verbatim>\<open>RangeError\<close> unless \<^verbatim>\<open>len\<close> is an integer from 0 to
  \<open>2\<^sup>3\<^sup>2 - 1\<close>; the result here is the length of the new, empty array.
\<close>

fun newArray :: "jsnum \<Rightarrow> error + nat" where
  "newArray (Num a) =
     (if 0 \<le> a \<and> a < 2 ^ 32 \<and> of_int \<lfloor>a\<rfloor> = a then Inr (nat \<lfloor>a\<rfloor>) else Inl RangeError)"
| "newArray _ = Inl RangeError"

text \<open>\<^verbatim>\<open>a[i]\<close>: \<^verbatim>\<open>undefined\<close> (here \<open>None\<close>) outside the array, also at index \<open>-1\<close>.\<close>

definition nth_opt :: "'a list \<Rightarrow> int \<Rightarrow> 'a option" where
  "nth_opt xs i = (if 0 \<le> i \<and> i < int (length xs) then Some (xs ! nat i) else None)"

text \<open>
  The color of lines 288-298, before it is perturbed. While \<^verbatim>\<open>newGrid\<close> runs, \<open>grid\<close>
  holds the lines completed so far (\<^verbatim>\<open>grid[0..lineIndex-1]\<close>) and \<open>line\<close> the nodes
  already stored in the current line (\<^verbatim>\<open>grid[lineIndex][0..nodeIndex-1]\<close>). Reading
  \<^verbatim>\<open>.color\<close> of an absent node of an existing line throws a \<^verbatim>\<open>TypeError\<close>.
  A local variable that shares its name with a field is primed.
\<close>

definition inheritedColor ::
  "grid \<Rightarrow> node list \<Rightarrow> nat \<Rightarrow> nat \<Rightarrow> color \<Rightarrow> error + color" where
  "inheritedColor grid line lineIndex nodeIndex startColor' =
     (let g = (case nth_opt grid (int lineIndex - 1) of
                 None \<Rightarrow> c_g startColor'
               | Some prev \<Rightarrow>
                   (case nth_opt prev (int nodeIndex - 1) of
                      None \<Rightarrow> c_g startColor'
                    | Some n \<Rightarrow> c_g (color n)));
          b = (case nth_opt line (int nodeIndex - 1) of
                 None \<Rightarrow> c_b startColor'
               | Some n \<Rightarrow> c_b (color n))
      in case nth_opt grid (int lineIndex - 1) of
           None \<Rightarrow> Inr (Color (c_r startColor') g b)
         | Some prev \<Rightarrow>
             (case nth_opt prev (int nodeIndex) of
                None \<Rightarrow> Inl TypeError
              | Some n \<Rightarrow> Inr (Color (c_r (color n)) g b)))"

text \<open>The body of the inner loop of \<^verbatim>\<open>newGrid\<close>, lines 277-307.\<close>

definition newNode ::
  "(nat \<Rightarrow> real) \<Rightarrow> settings \<Rightarrow> grid \<Rightarrow> node list \<Rightarrow> nat \<Rightarrow> nat \<Rightarrow> nat
     \<Rightarrow> error + node \<times> nat" where
  "newNode rnd s grid line lineIndex nodeIndex k =
     (let posRandomness' = Vector (posRandomness s) (posRandomness s);
          currPos' = Point (jmul (Num (of_nat lineIndex)) (gridSize s))
                       (jmul (Num (of_nat nodeIndex)) (gridSize s));
          currPos' = move currPos' (Vector (Num (- 40)) (Num (- 40)));
          (jx, k) = getRandomInt rnd k (jneg (vx posRandomness')) (vx posRandomness');
          (jy, k) = getRandomInt rnd k (jneg (vy posRandomness')) (vy posRandomness');
          currPos' = move currPos' (Vector jx jy);
          (startColor', k) = getRandomColor rnd k (startColor s) (startColorRandomness s)
      in case inheritedColor grid line lineIndex nodeIndex startColor' of
           Inl e \<Rightarrow> Inl e
         | Inr color' \<Rightarrow>
             (let (color', k) = getRandomColor rnd k (Some color')
                                  (jor (overTimeColorRandomness s) (Num 0));
                  (shown, k) = getRandomColor rnd k (Some color') (Num 0)
              in Inr (\<lparr>base_color = color', color = shown,
                        orgPos = Point (px currPos') (py currPos'), currPos = currPos'\<rparr>, k)))"

text \<open>
  The inner loop, lines 276-308: \<^verbatim>\<open>nodeIndex\<close> is the number of nodes already stored
  in the line, and \<open>n\<close> is the length of the line's array.
\<close>

function nodeLoop ::
  "(nat \<Rightarrow> real) \<Rightarrow> settings \<Rightarrow> grid \<Rightarrow> nat \<Rightarrow> nat \<Rightarrow> node list \<Rightarrow> nat
     \<Rightarrow> error + node list \<times> nat" where
  "nodeLoop rnd s grid lineIndex n line k =
     (if length line < n
      then (case newNode rnd s grid line lineIndex (length line) k of
              Inl e \<Rightarrow> Inl e
            | Inr (nd, k') \<Rightarrow> nodeLoop rnd s grid lineIndex n (line @ [nd]) k')
      else Inr (line, k))"
  by pat_completeness auto

termination
  by (relation "measure (\<lambda>(rnd, s, grid, lineIndex, n, line, k). n - length line)") auto

declare nodeLoop.simps [simp del]

text \<open>
  The outer loop, lines 274-309: \<^verbatim>\<open>lineIndex\<close> is the number of lines completed, and
  \<open>m\<close> is the length of the grid's array.
\<close>

function lineLoop ::
  "(nat \<Rightarrow> real) \<Rightarrow> canvas \<Rightarrow> settings \<Rightarrow> nat \<Rightarrow> grid \<Rightarrow> nat \<Rightarrow> error + grid \<times> nat" where
  "lineLoop rnd cv s m grid k =
     (if length grid < m
      then (case newArray (jadd (parseInt (jdiv (Num (of_nat (height cv))) (gridSize s))) (Num 5)) of
              Inl e \<Rightarrow> Inl e
            | Inr n \<Rightarrow>
                (case nodeLoop rnd s grid (length grid) n [] k of
                   Inl e \<Rightarrow> Inl e
                 | Inr (line, k') \<Rightarrow> lineLoop rnd cv s m (grid @ [line]) k'))
      else Inr (grid, k))"
  by pat_completeness auto

termination
  by (relation "measure (\<lambda>(rnd, cv, s, m, grid, k). m - length grid)") auto

declare lineLoop.simps [simp del]

text \<open>\<^verbatim>\<open>newGrid(grid, s)\<close>, lines 271-312; its first argument is never read.\<close>

definition newGrid :: "(nat \<Rightarrow> real) \<Rightarrow> canvas \<Rightarrow> settings \<Rightarrow> nat \<Rightarrow> error + grid \<times> nat" where
  "newGrid rnd cv s k =
     (case newArray (jadd (parseInt (jdiv (Num (of_nat (width cv))) (gridSize s))) (Num 5)) of
        Inl e \<Rightarrow> Inl e
      | Inr m \<Rightarrow> lineLoop rnd cv s m [] k)"

section \<open>Animation\<close>

text \<open>
  The body of the loop of \<^verbatim>\<open>animateGrid\<close> has two parts. Lines 345-355 displace the
  node when a pointer position is known and near enough; an absent \<^verbatim>\<open>s.mousePos\<close> is
  \<open>None\<close>.
\<close>

definition pointerDisplacement :: "vector \<Rightarrow> jsnum \<Rightarrow> vector" where
  "pointerDisplacement diff pow =
     multiply (multiply (normalized diff) (Vector (Num 30) (Num 30))) (Vector pow pow)"

definition displace :: "point option \<Rightarrow> node \<Rightarrow> node" where
  "displace mousePos nd =
     (case mousePos of
        None \<Rightarrow> nd
      | Some m \<Rightarrow>
          (let diff = fromPoints (orgPos nd) m;
               dist = getDistance diff;
               pow = jsub (Num 1) (Math_pow (jdiv dist (Num 420)) 2)
           in if jgt pow (Num 0)
              then nd\<lparr>currPos := move (orgPos nd) (pointerDisplacement diff pow)\<rparr>
              else nd))"

text \<open>Lines 357-358 pull the current position back toward the rest position.\<close>

definition settle :: "node \<Rightarrow> node" where
  "settle nd =
     (let nd = nd\<lparr>currPos := (currPos nd)
            \<lparr>px := jdiv (jadd (px (orgPos nd)) (jmul (px (currPos nd)) (Num 50))) (Num 51)\<rparr>\<rparr>;
          nd = nd\<lparr>currPos := (currPos nd)
            \<lparr>py := jdiv (jadd (py (orgPos nd)) (jmul (py (currPos nd)) (Num 50))) (Num 51)\<rparr>\<rparr>
      in nd)"

definition animateNode :: "point option \<Rightarrow> node \<Rightarrow> node" where
  "animateNode mousePos nd = settle (displace mousePos nd)"

text \<open>
  The two loops of \<^verbatim>\<open>animateGrid\<close>, lines 341-360, stop one short of the end of each
  array.
\<close>

function animateLine :: "point option \<Rightarrow> nat \<Rightarrow> node list \<Rightarrow> node list" where
  "animateLine mousePos nodeIndex line =
     (if nodeIndex < length line - 1
      then animateLine mousePos (Suc nodeIndex)
             (line[nodeIndex := animateNode mousePos (line ! nodeIndex)])
      else line)"
  by pat_completeness auto

termination
  by (relation "measure (\<lambda>(mousePos, nodeIndex, line). length line - nodeIndex)") auto

declare animateLine.simps [simp del]

function animateLines :: "point option \<Rightarrow> nat \<Rightarrow> grid \<Rightarrow> grid" where
  "animateLines mousePos lineIndex grid =
     (if lineIndex < length grid - 1
      then animateLines mousePos (Suc lineIndex)
             (grid[lineIndex := animateLine mousePos 0 (grid ! lineIndex)])
      else grid)"
  by pat_completeness auto

termination
  by (relation "measure (\<lambda>(mousePos, lineIndex, grid). length grid - lineIndex)") auto

declare animateLines.simps [simp del]

definition animateGrid :: "grid \<Rightarrow> point option \<Rightarrow> grid" where
  "animateGrid grid mousePos = animateLines mousePos 0 grid"

section \<open>Drawing\<close>

text \<open>
  \<^verbatim>\<open>Polygon\<close> (lines 154-158) and its \<^verbatim>\<open>fill\<close> method (lines 161-184, with \<^verbatim>\<open>debug\<close> false).
  What \<^verbatim>\<open>fill\<close> sends to the canvas is recorded as one \<open>fillOp\<close>: the fill style, the
  points of the path (\<^verbatim>\<open>moveTo\<close> the first point, then \<^verbatim>\<open>lineTo\<close> every point), and the
  stroke style when there is a border color. A polygon without points makes
  \<^verbatim>\<open>this.points[0].x\<close> throw a \<^verbatim>\<open>TypeError\<close>.
\<close>

record polygon =
  points :: "point list"
  fill_color :: color
  border_color :: "color option"

definition Polygon :: "point list \<Rightarrow> color option \<Rightarrow> color option \<Rightarrow> polygon" where
  "Polygon ps c bc =
     \<lparr>points = ps,
      fill_color = (case c of None \<Rightarrow> Color NaN NaN NaN | Some c' \<Rightarrow> c'),
      border_color = bc\<rparr>"

record fillOp =
  fillStyle :: string
  path :: "point list"
  strokeStyle :: "string option"

definition fill :: "(real \<Rightarrow> string) \<Rightarrow> polygon \<Rightarrow> error + fillOp" where
  "fill render p =
     (case points p of
        [] \<Rightarrow> Inl TypeError
      | q # qs \<Rightarrow>
          Inr \<lparr>fillStyle = getHexCode render (fill_color p),
               path = q # points p,
               strokeStyle = map_option (getHexCode render) (border_color p)\<rparr>)"

record drawSettings =
  baseColor :: "color option"
  baseColorOpacity :: jsnum
  borderColor :: "color option"

text \<open>Lines 317-324: the color of one cell, blended with the base color.\<close>

definition blend :: "jsnum \<Rightarrow> jsnum \<Rightarrow> jsnum \<Rightarrow> jsnum" where
  "blend v bcv bco = jdiv (jadd v (jmul bcv bco)) (jadd (Num 1) bco)"

definition drawColor ::
  "(nat \<Rightarrow> real) \<Rightarrow> nat \<Rightarrow> drawSettings \<Rightarrow> node \<Rightarrow> color \<times> nat" where
  "drawColor rnd k s nd =
     (let (dc, k) = getRandomColor rnd k (Some (color nd)) (Num 0)
      in case baseColor s of
           None \<Rightarrow> (dc, k)
         | Some bc \<Rightarrow>
             (let bco = baseColorOpacity s;
                  dc = set_r (blend (c_r dc) (c_r bc) bco) dc;
                  dc = set_g (blend (c_g dc) (c_g bc) bco) dc;
                  dc = set_b (blend (c_b dc) (c_b bc) bco) dc
              in (dc, k)))"

text \<open>
  Lines 326-335: the four corners of the cell. \<^verbatim>\<open>grid[lineIndex]\<close> and its nodes at
  \<^verbatim>\<open>nodeIndex\<close> and \<^verbatim>\<open>nodeIndex + 1\<close> exist by the loop bounds, and so does
  \<^verbatim>\<open>grid[lineIndex + 1]\<close>; a shorter next line makes \<^verbatim>\<open>.currPos\<close> throw.
\<close>

definition drawCell ::
  "(real \<Rightarrow> string) \<Rightarrow> (nat \<Rightarrow> real) \<Rightarrow> nat \<Rightarrow> drawSettings \<Rightarrow> grid \<Rightarrow> nat \<Rightarrow> nat
     \<Rightarrow> error + fillOp \<times> nat" where
  "drawCell render rnd k s grid lineIndex nodeIndex =
     (let (dc, k) = drawColor rnd k s (grid ! lineIndex ! nodeIndex)
      in case (nth_opt (grid ! Suc lineIndex) (int nodeIndex),
               nth_opt (grid ! Suc lineIndex) (int nodeIndex + 1)) of
           (Some a, Some d) \<Rightarrow>
             (case fill render (Polygon
                     [currPos a, currPos (grid ! lineIndex ! nodeIndex),
                      currPos (grid ! lineIndex ! Suc nodeIndex), currPos d]
                     (Some dc) (borderColor s)) of
                Inl e \<Rightarrow> Inl e
              | Inr op \<Rightarrow> Inr (op, k))
         | _ \<Rightarrow> Inl TypeError)"

function drawLine ::
  "(real \<Rightarrow> string) \<Rightarrow> (nat \<Rightarrow> real) \<Rightarrow> nat \<Rightarrow> drawSettings \<Rightarrow> grid \<Rightarrow> nat \<Rightarrow> nat
     \<Rightarrow> fillOp list \<Rightarrow> error + fillOp list \<times> nat" where
  "drawLine render rnd k s grid lineIndex nodeIndex ops =
     (if nodeIndex < length (grid ! lineIndex) - 1
      then (case drawCell render rnd k s grid lineIndex nodeIndex of
              Inl e \<Rightarrow> Inl e
            | Inr (op, k') \<Rightarrow>
                drawLine render rnd k' s grid lineIndex (Suc nodeIndex) (ops @ [op]))
      else Inr (ops, k))"
  by pat_completeness auto

termination
  by (relation "measure (\<lambda>(render, rnd, k, s, grid, lineIndex, nodeIndex, ops).
        length (grid ! lineIndex) - nodeIndex)") auto

declare drawLine.simps [simp del]

function drawLines ::
  "(real \<Rightarrow> string) \<Rightarrow> (nat \<Rightarrow> real) \<Rightarrow> nat \<Rightarrow> drawSettings \<Rightarrow> grid \<Rightarrow> nat
     \<Rightarrow> fillOp list \<Rightarrow> error + fillOp list \<times> nat" where
  "drawLines render rnd k s grid lineIndex ops =
     (if lineIndex < length grid - 1
      then (case drawLine render rnd k s grid lineIndex 0 ops of
              Inl e \<Rightarrow> Inl e
            | Inr (ops', k') \<Rightarrow> drawLines render rnd k' s grid (Suc lineIndex) ops')
      else Inr (ops, k))"
  by pat_completeness auto

termination
  by (relation "measure (\<lambda>(render, rnd, k, s, grid, lineIndex, ops).
        length grid - lineIndex)") auto

declare drawLines.simps [simp del]

text \<open>
  \<^verbatim>\<open>drawGrid(grid, s)\<close>, lines 314-338. It assigns to no field of the grid or of a
  node: its effect is the sequence of fills sent to the canvas.
\<close>

definition drawGrid ::
  "(real \<Rightarrow> string) \<Rightarrow> (nat \<Rightarrow> real) \<Rightarrow> nat \<Rightarrow> grid \<Rightarrow> drawSettings
     \<Rightarrow> error + fillOp list \<times> nat" where
  "drawGrid render rnd k grid s = drawLines render rnd k s grid 0 []"

section \<open>Point objects in a store\<close>

text \<open>
  \<^verbatim>\<open>animateGrid\<close> writes into \<^verbatim>\<open>Point\<close> objects in place (\<^verbatim>\<open>node.currPos.x = ...\<close>), so
  whether a rest position can change depends on which fields share an object.
  Here the two position fields of a node hold references into a store of \<^verbatim>\<open>Point\<close>
  objects; \<open>fresh\<close> is the next unused reference. The colors stay values: no
  \<^verbatim>\<open>Color\<close> object held by a node is written after \<^verbatim>\<open>newGrid\<close>. The arrays and the
  node objects are built afresh by \<^verbatim>\<open>newGrid\<close>, one per cell, and stay lists of
  records.
\<close>

type_synonym ref = nat

record heap =
  cells :: "ref \<Rightarrow> point"
  fresh :: ref

record rnode =
  base_colorR :: color
  colorR :: color
  orgRef :: ref
  currRef :: ref

type_synonym rgrid = "rnode list list"

text \<open>\<^verbatim>\<open>new Point(...)\<close> with the coordinates of \<open>p\<close>.\<close>

definition newPoint :: "point \<Rightarrow> heap \<Rightarrow> ref \<times> heap" where
  "newPoint p h = (fresh h, \<lparr>cells = (cells h)(fresh h := p), fresh = Suc (fresh h)\<rparr>)"

text \<open>The node of the value model that a node with references stands for.\<close>

definition load :: "heap \<Rightarrow> rnode \<Rightarrow> node" where
  "load h n =
     \<lparr>base_color = base_colorR n, color = colorR n,
      orgPos = cells h (orgRef n), currPos = cells h (currRef n)\<rparr>"

text \<open>
  The object literal of lines 302-307 stores two new objects: \<^verbatim>\<open>currPos\<close>, which the
  last \<^verbatim>\<open>move\<close> created with \<^verbatim>\<open>new Point\<close>, and \<^verbatim>\<open>new Point(currPos.x, currPos.y)\<close> for
  \<^verbatim>\<open>orgPos\<close>. \<^verbatim>\<open>newGrid\<close> reads no \<^verbatim>\<open>Point\<close> of an earlier node, so its result in the
  store is the grid of \<open>newGrid\<close> with these two objects allocated node by node, in
  the order the loops create the nodes.
\<close>

definition storeNode :: "node \<Rightarrow> heap \<Rightarrow> rnode \<times> heap" where
  "storeNode nd h =
     (let (cur, h) = newPoint (currPos nd) h;
          (org, h) = newPoint (orgPos nd) h
      in (\<lparr>base_colorR = base_color nd, colorR = color nd, orgRef = org, currRef = cur\<rparr>, h))"

fun storeLine :: "node list \<Rightarrow> heap \<Rightarrow> rnode list \<times> heap" where
  "storeLine [] h = ([], h)"
| "storeLine (nd # nds) h =
     (let (n, h) = storeNode nd h;
          (ns, h) = storeLine nds h
      in (n # ns, h))"

fun storeGrid :: "grid \<Rightarrow> heap \<Rightarrow> rgrid \<times> heap" where
  "storeGrid [] h = ([], h)"
| "storeGrid (line # lines) h =
     (let (l, h) = storeLine line h;
          (ls, h) = storeGrid lines h
      in (l # ls, h))"

definition newGridR ::
  "(nat \<Rightarrow> real) \<Rightarrow> canvas \<Rightarrow> settings \<Rightarrow> nat \<Rightarrow> heap \<Rightarrow> error + (rgrid \<times> heap) \<times> nat" where
  "newGridR rnd cv s k h =
     (case newGrid rnd cv s k of
        Inl e \<Rightarrow> Inl e
      | Inr (g, k') \<Rightarrow> Inr (storeGrid g h, k'))"

text \<open>
  The body of the loop of \<^verbatim>\<open>animateGrid\<close> on the store. Line 351 assigns a new
  object to the field \<^verbatim>\<open>currPos\<close>; lines 357 and 358 write into the object the field
  holds, one coordinate after the other. \<^verbatim>\<open>s.mousePos\<close> is a reference as well.
\<close>

definition displaceR :: "ref option \<Rightarrow> rnode \<Rightarrow> heap \<Rightarrow> rnode \<times> heap" where
  "displaceR mousePos nd h =
     (case mousePos of
        None \<Rightarrow> (nd, h)
      | Some m \<Rightarrow>
          (let diff = fromPoints (cells h (orgRef nd)) (cells h m);
               dist = getDistance diff;
               pow = jsub (Num 1) (Math_pow (jdiv dist (Num 420)) 2)
           in if jgt pow (Num 0)
              then (let (r, h') =
                          newPoint (move (cells h (orgRef nd)) (pointerDisplacement diff pow)) h
                    in (nd\<lparr>currRef := r\<rparr>, h'))
              else (nd, h)))"

definition settleR :: "rnode \<Rightarrow> heap \<Rightarrow> heap" where
  "settleR nd h =
     (let h = h\<lparr>cells := (cells h)(currRef nd := (cells h (currRef nd))
            \<lparr>px := jdiv (jadd (px (cells h (orgRef nd)))
                     (jmul (px (cells h (currRef nd))) (Num 50))) (Num 51)\<rparr>)\<rparr>;
          h = h\<lparr>cells := (cells h)(currRef nd := (cells h (currRef nd))
            \<lparr>py := jdiv (jadd (py (cells h (orgRef nd)))
                     (jmul (py (cells h (currRef nd))) (Num 50))) (Num 51)\<rparr>)\<rparr>
      in h)"

definition animateNodeR :: "ref option \<Rightarrow> rnode \<Rightarrow> heap \<Rightarrow> rnode \<times> heap" where
  "animateNodeR mousePos nd h =
     (let (nd, h) = displaceR mousePos nd h in (nd, settleR nd h))"

function animateLineR :: "ref option \<Rightarrow> nat \<Rightarrow> rnode list \<Rightarrow> heap \<Rightarrow> rnode list \<times> heap" where
  "animateLineR mousePos nodeIndex line h =
     (if nodeIndex < length line - 1
      then (let (nd, h) = animateNodeR mousePos (line ! nodeIndex) h
            in animateLineR mousePos (Suc nodeIndex) (line[nodeIndex := nd]) h)
      else (line, h))"
  by pat_completeness auto
termination
  by (relation "measure (\<lambda>(mousePos, nodeIndex, line, h). length line - nodeIndex)") auto

declare animateLineR.simps [simp del]

function animateLinesR :: "ref option \<Rightarrow> nat \<Rightarrow> rgrid \<Rightarrow> heap \<Rightarrow> rgrid \<times> heap" where
  "animateLinesR mousePos lineIndex grid h =
     (if lineIndex < length grid - 1
      then (let (line, h) = animateLineR mousePos 0 (grid ! lineIndex) h
            in animateLinesR mousePos (Suc lineIndex) (grid[lineIndex := line]) h)
      else (grid, h))"
  by pat_completeness auto
termination
  by (relation "measure (\<lambda>(mousePos, lineIndex, grid, h). length grid - lineIndex)") auto

declare animateLinesR.simps [simp del]

definition animateGridR :: "rgrid \<Rightarrow> ref option \<Rightarrow> heap \<Rightarrow> rgrid \<times> heap" where
  "animateGridR grid mousePos h = animateLinesR mousePos 0 grid h"

text \<open>
  \<^verbatim>\<open>drawGrid\<close> reads the current positions and the colors and returns nothing: the
  store after it is the store before it.
\<close>

definition drawGridR ::
  "(real \<Rightarrow> string) \<Rightarrow> (nat \<Rightarrow> real) \<Rightarrow> nat \<Rightarrow> rgrid \<Rightarrow> drawSettings \<Rightarrow> heap
     \<Rightarrow> error + fillOp list \<times> nat" where
  "drawGridR render rnd k grid s h = drawGrid render rnd k (map (map (load h)) grid) s"

text \<open>
  The driving code, lines 364-415, after \<^verbatim>\<open>newGrid\<close>: a state is the grid, the store
  and the variable \<^verbatim>\<open>mousePos\<close>. Line 375 and every \<^verbatim>\<open>mousemove\<close> event assign a new
  \<^verbatim>\<open>Point\<close> to \<^verbatim>\<open>mousePos\<close>; a rendered frame calls \<^verbatim>\<open>animateGrid\<close> and then \<^verbatim>\<open>drawGrid\<close>.
\<close>

inductive run :: "rgrid \<times> heap \<times> ref option \<Rightarrow> rgrid \<times> heap \<times> ref option \<Rightarrow> bool" where
  start: "run st st"
| pointer: "run st (g, h, m) \<Longrightarrow> newPoint p h = (r, h') \<Longrightarrow> run st (g, h', Some r)"
| frame: "run st (g, h, m) \<Longrightarrow> animateGridR g m h = (g', h') \<Longrightarrow> run st (g', h', m)"

section \<open>Notions used to state the properties\<close>

text \<open>
  The two hexadecimal digits of a channel value and the set of hexadecimal digits:
  these come from the statements below, not from the program.
\<close>

definition twoHexDigits :: "jsnum \<Rightarrow> string" where
  "twoHexDigits v =
     (case v of
        Num a \<Rightarrow> [hexDigit (nat \<lfloor>a\<rfloor> div 16), hexDigit (nat \<lfloor>a\<rfloor> mod 16)]
      | _ \<Rightarrow> [])"

definition isHexDigit :: "char \<Rightarrow> bool" where
  "isHexDigit ch = (ch \<in> set ''0123456789abcdef'')"



text \<open>
  The rest positions stand apart in the store: every \<^verbatim>\<open>orgPos\<close> reference is
  allocated and is the \<^verbatim>\<open>currPos\<close> reference of no node.
\<close>

definition orgRefs :: "rgrid \<Rightarrow> ref list" where
  "orgRefs g = map orgRef (concat g)"

definition currRefs :: "rgrid \<Rightarrow> ref list" where
  "currRefs g = map currRef (concat g)"

definition restApart :: "rgrid \<Rightarrow> heap \<Rightarrow> bool" where
  "restApart g h = (\<forall>r \<in> set (orgRefs g). r < fresh h \<and> r \<notin> set (currRefs g))"

text \<open>
  The positions stand apart in the store: moreover every \<^verbatim>\<open>currPos\<close> reference is
  allocated and no two nodes share one. The pointer stands apart: the reference in
  \<^verbatim>\<open>s.mousePos\<close>, if any, is allocated and is the \<^verbatim>\<open>currPos\<close> reference of no node.
\<close>

definition apart :: "rgrid \<Rightarrow> heap \<Rightarrow> bool" where
  "apart g h =
     (restApart g h \<and> distinct (currRefs g) \<and> (\<forall>r \<in> set (currRefs g). r < fresh h))"

definition pointerApart :: "ref option \<Rightarrow> rgrid \<Rightarrow> heap \<Rightarrow> bool" where
  "pointerApart mp g h =
     (case mp of None \<Rightarrow> True | Some m \<Rightarrow> m < fresh h \<and> m \<notin> set (currRefs g))"



text \<open>A number that is not an infinity, and a color without an infinite channel.\<close>

fun tame :: "jsnum \<Rightarrow> bool" where
  "tame PosInf = False"
| "tame NegInf = False"
| "tame _ = True"

definition tameColor :: "color \<Rightarrow> bool" where
  "tameColor c = (tame (c_r c) \<and> tame (c_g c) \<and> tame (c_b c))"

text \<open>
  The color a node inherits, in the words of the specification: red from the node
  of the previous line at the same index, green from the node of the previous line
  at the previous index, blue from the previous node of the same line, and each
  from the color \<open>sc\<close> where that node does not exist.
\<close>

definition sourceColor :: "grid \<Rightarrow> nat \<Rightarrow> nat \<Rightarrow> color \<Rightarrow> color" where
  "sourceColor g i j sc =
     \<lparr>c_r = (if 0 < i then c_r (color (g ! (i - 1) ! j)) else c_r sc),
      c_g = (if 0 < i \<and> 0 < j then c_g (color (g ! (i - 1) ! (j - 1))) else c_g sc),
      c_b = (if 0 < j then c_b (color (g ! i ! (j - 1))) else c_b sc)\<rparr>"

text \<open>
  Draw settings whose blend divides by a non-zero finite number: no base color, or
  a base color with integer channels from 0 to 255 and a finite opacity other than
  \<open>-1\<close>. The program passes (25, 80, 250) and 0.4.
\<close>

definition finiteBlend :: "drawSettings \<Rightarrow> bool" where
  "finiteBlend s =
     (case baseColor s of
        None \<Rightarrow> True
      | Some bc \<Rightarrow> validColor bc \<and> (\<exists>b. baseColorOpacity s = Num b \<and> b \<noteq> - 1))"

text \<open>Settings whose start color and start randomness hold no infinity.\<close>

definition tameStart :: "settings \<Rightarrow> bool" where
  "tameStart s =
     ((case startColor s of None \<Rightarrow> True | Some c \<Rightarrow> tameColor c) \<and>
      tame (startColorRandomness s))"

text \<open>The settings the program passes to \<^verbatim>\<open>newGrid\<close> (lines 365-373), for a given cell size.\<close>

definition programSettings :: "jsnum \<Rightarrow> settings" where
  "programSettings cellSize =
     \<lparr>posRandomness = Num 26, startColor = Some (Color (Num 80) (Num 90) (Num 250)),
      startColorRandomness = Num 10, overTimeColorRandomness = Num 5, gridSize = cellSize\<rparr>"

section \<open>Properties of numbers and colors\<close>

lemma trunc_of_int [simp]: "trunc (of_int n) = n"
  by (simp add: trunc_def)

lemma parseInt_Num: "\<exists>m::int. parseInt (Num a) = Num (of_int m)"
proof (cases "decimalNotation a")
  case True
  then have "parseInt (Num a) = Num (of_int (trunc a))" by simp
  then show ?thesis ..
next
  case False
  then have "parseInt (Num a) = Num (of_int ((if a < 0 then - 1 else 1) * leadDigit \<bar>a\<bar>))"
    by (simp only: parseInt.simps if_False)
  then show ?thesis ..
qed

lemma limit_channel: "channel (limit (Num (of_int m)) (Num 0) (Num 255))"
  by (auto simp: limit_def jgt_def channel_def intro: exI[of _ m] exI[of _ 0] exI[of _ 255])

lemma limit_int: "limit (Num (of_int m)) (Num 0) (Num 255) = Num (of_int (max 0 (min 255 m)))"
  by (auto simp: limit_def jgt_def max_def min_def)

lemma store_channel: "channel (limit (parseInt (Num a)) (Num 0) (Num 255))"
proof -
  obtain m :: int where "parseInt (Num a) = Num (of_int m)" using parseInt_Num by blast
  then show ?thesis by (simp only: limit_channel)
qed

lemma decimalNotation_of_int: "\<bar>n\<bar> < 10 ^ 21 \<Longrightarrow> decimalNotation (of_int n)"
proof -
  assume a: "\<bar>n\<bar> < 10 ^ 21"
  have "\<bar>real_of_int n\<bar> = of_int \<bar>n\<bar>" by simp
  also have "\<dots> < 10 ^ 21" using a by (simp only: of_int_less_numeral_power_cancel_iff)
  finally have b: "\<bar>real_of_int n\<bar> < 10 ^ 21" .
  show ?thesis
  proof (cases "n = 0")
    case True then show ?thesis by (simp add: decimalNotation_def)
  next
    case False
    then have "1 \<le> \<bar>n\<bar>" by simp
    then have "1 \<le> \<bar>real_of_int n\<bar>" by linarith
    then have "1 / 10 ^ 6 \<le> \<bar>real_of_int n\<bar>" by simp
    with b show ?thesis by (simp only: decimalNotation_def simp_thms)
  qed
qed

lemma parseInt_of_int: "\<bar>n\<bar> < 10 ^ 21 \<Longrightarrow> parseInt (Num (of_int n)) = Num (of_int n)"
  by (simp add: decimalNotation_of_int)

lemma store_of_int:
  assumes "\<bar>n\<bar> < 10 ^ 21"
  shows "limit (parseInt (Num (of_int n))) (Num 0) (Num 255) = Num (of_int (max 0 (min 255 n)))"
  by (simp only: parseInt_of_int [OF assms] limit_int)

lemma jor_Num: "\<exists>b. jor (Num a) (Num 0) = Num b"
  by (simp add: jor_def)

lemma jor_of_int: "jor (Num (of_int n)) (Num 0) = Num (of_int n)"
  by (simp add: jor_def)

lemma channel_parse: "channel v \<Longrightarrow> limit (parseInt (jor v (Num 0))) (Num 0) (Num 255) = v"
proof -
  assume "channel v"
  then obtain n :: int where n: "0 \<le> n" "n \<le> 255" "v = Num (of_int n)"
    by (auto simp: channel_def)
  have b: "\<bar>n\<bar> < 10 ^ 21" using n by simp
  show ?thesis
    unfolding n(3) jor_of_int store_of_int [OF b] using n by simp
qed

lemma Color_valid_id: "validColor c \<Longrightarrow> Color (c_r c) (c_g c) (c_b c) = c"
  by (simp add: Color_def set_r_def set_g_def set_b_def validColor_def channel_parse)

lemma Color_Num_valid: "validColor (Color (Num x) (Num y) (Num z))"
proof -
  obtain x' y' z' where j: "jor (Num x) (Num 0) = Num x'" "jor (Num y) (Num 0) = Num y'"
    "jor (Num z) (Num 0) = Num z'"
    using jor_Num by metis
  show ?thesis
    by (simp add: Color_def set_r_def set_g_def set_b_def validColor_def j store_channel
        del: parseInt.simps)
qed

lemma Color_of_int:
  assumes "\<bar>r\<bar> < 10 ^ 21" "\<bar>g\<bar> < 10 ^ 21" "\<bar>b\<bar> < 10 ^ 21"
  shows "Color (Num (of_int r)) (Num (of_int g)) (Num (of_int b)) =
    \<lparr>c_r = Num (of_int (max 0 (min 255 r))), c_g = Num (of_int (max 0 (min 255 g))),
     c_b = Num (of_int (max 0 (min 255 b)))\<rparr>"
  by (simp add: Color_def set_r_def set_g_def set_b_def jor_of_int store_of_int [OF assms(1)]
      store_of_int [OF assms(2)] store_of_int [OF assms(3)] del: parseInt.simps)

lemma getRandomInt_counter: "snd (getRandomInt rnd k lo hi) = Suc k"
  by (simp add: getRandomInt_def Math_random_def)

lemma getRandomColor_counter: "snd (getRandomColor rnd k c q) = k + 3"
  by (simp add: getRandomColor_def getRandomInt_def Math_random_def Let_def split: prod.splits)

lemma tame_jadd: "tame a \<Longrightarrow> tame b \<Longrightarrow> tame (jadd a b)"
  by (cases a; cases b) simp_all

lemma tame_jneg: "tame a \<Longrightarrow> tame (jneg a)"
  by (cases a) simp_all

lemma tame_jsub: "tame a \<Longrightarrow> tame b \<Longrightarrow> tame (jsub a b)"
  by (simp add: jsub_def tame_jadd tame_jneg)

lemma tame_jmul: "tame a \<Longrightarrow> tame b \<Longrightarrow> tame (jmul a b)"
  by (cases a; cases b) simp_all

lemma tame_floor: "tame a \<Longrightarrow> tame (Math_floor a)"
  by (cases a) simp_all

lemma tame_div100: "tame a \<Longrightarrow> tame (jdiv a (Num 100))"
  by (cases a) simp_all

lemma tame_channel: "channel v \<Longrightarrow> tame v"
  by (auto simp: channel_def)

lemma validColor_tame: "validColor c \<Longrightarrow> tameColor c"
  by (simp add: validColor_def tameColor_def tame_channel)

lemma tame_getRandomInt:
  assumes "tame lo" "tame hi"
  shows "tame (fst (getRandomInt rnd k lo hi))"
  using assms
  by (simp add: getRandomInt_def Math_random_def tame_jadd tame_jsub tame_jmul tame_floor)

lemma store_tame_channel: "tame v \<Longrightarrow> channel (limit (parseInt (jor v (Num 0))) (Num 0) (Num 255))"
proof -
  assume "tame v"
  then have "\<exists>a. jor v (Num 0) = Num a" by (cases v) (simp_all add: jor_def)
  then obtain a where "jor v (Num 0) = Num a" ..
  then show ?thesis by (simp only: store_channel)
qed

lemma Color_tame_valid:
  assumes "tame r" "tame g" "tame b"
  shows "validColor (Color r g b)"
  using assms
  by (simp add: Color_def set_r_def set_g_def set_b_def validColor_def store_tame_channel)

lemma getRandomColor_valid:
  assumes "tameColor c" "tame q"
  shows "validColor (fst (getRandomColor rnd k (Some c) q))"
proof -
  define q' where "q' = (if isNaN q then Num 100 else q)"
  have "tame q'" using assms(2) by (simp add: q'_def)
  then have f: "tame (jdiv q' (Num 100))" by (rule tame_div100)
  have t: "tame (c_r c)" "tame (c_g c)" "tame (c_b c)" using assms(1) by (simp_all add: tameColor_def)
  have "tame (fst (getRandomInt rnd k' (jmul v (jsub (Num 1) (jdiv q' (Num 100))))
      (jadd v (jmul (jsub (Num 255) v) (jdiv q' (Num 100))))))" if "tame v" for v k'
    using that f by (intro tame_getRandomInt tame_jmul tame_jadd tame_jsub) simp_all
  then show ?thesis using t
    by (simp add: getRandomColor_def Let_def q'_def [symmetric] split: prod.splits)
      (metis Color_tame_valid fst_conv)
qed

lemma getRandomColor_None_valid:
  assumes "tame q"
  shows "validColor (fst (getRandomColor rnd k None q))"
proof -
  have "validColor (Color NaN NaN NaN)" by (rule Color_tame_valid) simp_all
  then have "tameColor (Color NaN NaN NaN)" by (rule validColor_tame)
  from getRandomColor_valid [OF this assms, of rnd k] show ?thesis
    by (simp add: getRandomColor_def)
qed

lemma Color_tame: "tameColor (Color r g b)"
proof -
  have "tame (limit (parseInt v) (Num 0) (Num 255))" for v
  proof (cases v)
    case (Num a)
    then show ?thesis using store_channel [of a] by (simp only: tame_channel)
  qed (simp_all add: limit_def jgt_def)
  then show ?thesis by (simp add: Color_def set_r_def set_g_def set_b_def tameColor_def)
qed

lemma getRandomColor_tame: "tameColor (fst (getRandomColor rnd k co q))"
  by (simp add: getRandomColor_def Let_def Color_tame split: prod.splits)

lemma blend_Num:
  assumes "channel v" "channel w" "b \<noteq> - 1"
  shows "\<exists>a. blend v w (Num b) = Num a"
proof -
  from assms(1,2) obtain x y where "v = Num x" "w = Num y" by (auto simp: channel_def)
  moreover have "1 + b \<noteq> 0" using assms(3) by linarith
  ultimately show ?thesis by (simp add: blend_def)
qed

lemma drawColor_valid:
  assumes "tameColor (color nd)" "finiteBlend s"
  shows "validColor (fst (drawColor rnd k s nd))"
proof -
  define dc where "dc = fst (getRandomColor rnd k (Some (color nd)) (Num 0))"
  have dcv: "validColor dc" unfolding dc_def using assms(1) by (rule getRandomColor_valid) simp
  have g: "getRandomColor rnd k (Some (color nd)) (Num 0) = (dc, k + 3)"
    unfolding dc_def using getRandomColor_counter [of rnd k "Some (color nd)" "Num 0"]
    by (metis prod.collapse)
  show ?thesis
  proof (cases "baseColor s")
    case None
    then show ?thesis using dcv by (simp add: drawColor_def g)
  next
    case (Some bc)
    with assms(2) obtain b where b: "validColor bc" "baseColorOpacity s = Num b" "b \<noteq> - 1"
      by (auto simp: finiteBlend_def)
    from dcv b(1) have ch: "channel (c_r dc)" "channel (c_g dc)" "channel (c_b dc)"
      "channel (c_r bc)" "channel (c_g bc)" "channel (c_b bc)"
      by (simp_all add: validColor_def)
    obtain r' where r': "blend (c_r dc) (c_r bc) (Num b) = Num r'"
      using blend_Num [OF ch(1) ch(4) b(3)] by blast
    obtain g' where g': "blend (c_g dc) (c_g bc) (Num b) = Num g'"
      using blend_Num [OF ch(2) ch(5) b(3)] by blast
    obtain b' where b': "blend (c_b dc) (c_b bc) (Num b) = Num b'"
      using blend_Num [OF ch(3) ch(6) b(3)] by blast
    show ?thesis
      by (simp add: drawColor_def g Some b(2) Let_def set_r_def set_g_def set_b_def r' g' b'
          validColor_def store_channel del: parseInt.simps)
  qed
qed

text \<open>
  C4. Every channel assignment and every construction of a \<^verbatim>\<open>Color\<close> from finite
  numbers stores integers from 0 to 255 in the channels; for an integer input
  (negative and above 255 included, of magnitude below \<open>10\<^sup>2\<^sup>1\<close>) the stored value is
  the input clamped to that range. So do the operations of the program that store
  channels: \<^verbatim>\<open>getRandomColor\<close> on a color and a randomness without infinities, and
  the blend of \<^verbatim>\<open>drawGrid\<close> with a finite divisor.
\<close>

theorem Color_channels_clamped:
  "channel (c_r (set_r (Num a) c)) \<and> channel (c_g (set_g (Num a) c)) \<and>
   channel (c_b (set_b (Num a) c)) \<and> validColor (Color (Num x) (Num y) (Num z)) \<and>
   (\<bar>n\<bar> < 10 ^ 21 \<longrightarrow>
      c_r (set_r (Num (of_int n)) c) = Num (of_int (max 0 (min 255 n))) \<and>
      c_g (set_g (Num (of_int n)) c) = Num (of_int (max 0 (min 255 n))) \<and>
      c_b (set_b (Num (of_int n)) c) = Num (of_int (max 0 (min 255 n)))) \<and>
   (\<bar>r\<bar> < 10 ^ 21 \<and> \<bar>g\<bar> < 10 ^ 21 \<and> \<bar>b\<bar> < 10 ^ 21 \<longrightarrow>
      Color (Num (of_int r)) (Num (of_int g)) (Num (of_int b)) =
        \<lparr>c_r = Num (of_int (max 0 (min 255 r))), c_g = Num (of_int (max 0 (min 255 g))),
         c_b = Num (of_int (max 0 (min 255 b)))\<rparr>) \<and>
   (tameColor c' \<and> tame q \<longrightarrow> validColor (fst (getRandomColor rnd k (Some c') q))) \<and>
   (tame q \<longrightarrow> validColor (fst (getRandomColor rnd k None q))) \<and>
   (tameColor (color nd) \<and> finiteBlend s \<longrightarrow> validColor (fst (drawColor rnd k s nd)))"
  by (simp add: set_r_def set_g_def set_b_def store_channel store_of_int Color_Num_valid
      Color_of_int getRandomColor_valid getRandomColor_None_valid drawColor_valid
      del: parseInt.simps)

theorem Color_channels_clamped_witness:
  "c_r (set_r (Num 300) \<lparr>c_r = Num 1, c_g = Num 2, c_b = Num 3\<rparr>) = Num 255 \<and>
   c_g (set_g (Num (- 7)) \<lparr>c_r = Num 1, c_g = Num 2, c_b = Num 3\<rparr>) = Num 0 \<and>
   Color (Num (- 5)) (Num 300) (Num 7) = \<lparr>c_r = Num 0, c_g = Num 255, c_b = Num 7\<rparr> \<and>
   validColor (fst (getRandomColor (\<lambda>i. 1 / 2) 0
     (Some \<lparr>c_r = Num 80, c_g = Num 90, c_b = Num 250\<rparr>) (Num 10)))"
proof -
  let ?c = "\<lparr>c_r = Num 1, c_g = Num 2, c_b = Num 3\<rparr>"
  let ?d = "\<lparr>c_r = Num 80, c_g = Num 90, c_b = Num 250\<rparr>"
  let ?nd = "\<lparr>base_color = ?d, color = ?d, orgPos = \<lparr>px = Num 0, py = Num 0\<rparr>,
    currPos = \<lparr>px = Num 0, py = Num 0\<rparr>\<rparr>"
  let ?s = "\<lparr>baseColor = None, baseColorOpacity = Num 0, borderColor = None\<rparr>"
  have t: "tameColor ?d \<and> tame (Num 10)" by (simp add: tameColor_def)
  from Color_channels_clamped [of 0 ?c 0 0 0 300 "- 5" 300 7 ?d "Num 10" "\<lambda>i. 1 / 2" 0 ?nd ?s]
    Color_channels_clamped [of 0 ?c 0 0 0 "- 7" 0 0 0 ?d "Num 10" "\<lambda>i. 1 / 2" 0 ?nd ?s] t
  show ?thesis by simp
qed

lemma hexOf_lt256:
  "n < 256 \<Longrightarrow>
    hexOf n = (if n < 16 then [hexDigit n] else [hexDigit (n div 16), hexDigit (n mod 16)])"
  by (subst hexOf.simps, subst hexOf.simps) auto

lemma hex_channel:
  assumes "channel v"
  shows "(if jlt v (Num 16) then ''0'' else '''') @ toString16 render v = twoHexDigits v"
proof -
  from assms obtain n :: int where n: "0 \<le> n" "n \<le> 255" "v = Num (of_int n)"
    by (auto simp: channel_def)
  have m: "nat n < 256" using n by simp
  show ?thesis using n m
    by (auto simp add: twoHexDigits_def hexOf_lt256 hexDigit_def)
qed

lemma isHexDigit_hexDigit: "d < 16 \<Longrightarrow> isHexDigit (hexDigit d)"
  unfolding isHexDigit_def hexDigit_def by (simp only: nth_mem length_Cons list.size)

text \<open>
  C10. For a color whose channels are integers from 0 to 255, \<^verbatim>\<open>getHexCode\<close> returns
  \<^verbatim>\<open>#\<close> followed by the two hexadecimal digits of each channel, the first digit being
  \<^verbatim>\<open>0\<close> for a channel below 16: seven characters, the last six hexadecimal digits.
\<close>

theorem getHexCode_format:
  assumes "validColor c"
  shows "getHexCode render c =
      ''#'' @ twoHexDigits (c_r c) @ twoHexDigits (c_g c) @ twoHexDigits (c_b c)
     \<and> length (getHexCode render c) = 7
     \<and> list_all isHexDigit (tl (getHexCode render c))"
proof -
  from assms obtain r g b :: int where
    r: "0 \<le> r" "r \<le> 255" "c_r c = Num (of_int r)" and
    g: "0 \<le> g" "g \<le> 255" "c_g c = Num (of_int g)" and
    b: "0 \<le> b" "b \<le> 255" "c_b c = Num (of_int b)"
    by (auto simp: validColor_def channel_def)
  have ch: "channel (c_r c)" "channel (c_g c)" "channel (c_b c)"
    using assms by (simp_all add: validColor_def)
  have code: "getHexCode render c =
      ''#'' @ twoHexDigits (c_r c) @ twoHexDigits (c_g c) @ twoHexDigits (c_b c)"
    using hex_channel [OF ch(1), of render] hex_channel [OF ch(2), of render]
      hex_channel [OF ch(3), of render]
    by (simp add: getHexCode_def Let_def split: if_splits)
  have d: "nat r div 16 < 16" "nat r mod 16 < 16" "nat g div 16 < 16" "nat g mod 16 < 16"
    "nat b div 16 < 16" "nat b mod 16 < 16"
    using r g b by simp_all
  show ?thesis
    unfolding code using d
    by (simp add: twoHexDigits_def r g b isHexDigit_hexDigit)
qed

theorem getHexCode_format_witness:
  "validColor \<lparr>c_r = Num 10, c_g = Num 255, c_b = Num 0\<rparr> \<and>
   getHexCode (\<lambda>a. ''?'') \<lparr>c_r = Num 10, c_g = Num 255, c_b = Num 0\<rparr> = ''#0aff00'' \<and>
   length (getHexCode (\<lambda>a. ''?'') \<lparr>c_r = Num 10, c_g = Num 255, c_b = Num 0\<rparr>) = 7"
proof -
  have "channel (Num 10)" "channel (Num 255)" "channel (Num 0)"
    unfolding channel_def
    by (rule exI [of _ 10], simp) (rule exI [of _ 255], simp, rule exI [of _ 0], simp)
  then have v: "validColor \<lparr>c_r = Num 10, c_g = Num 255, c_b = Num 0\<rparr>"
    by (simp add: validColor_def)
  from getHexCode_format [OF v, of "\<lambda>a. ''?''"] v show ?thesis
    by (simp add: twoHexDigits_def hexDigit_def)
qed

lemma getRandomInt_same:
  assumes "0 \<le> rnd k" "rnd k < 1"
  shows "getRandomInt rnd k (Num a) (Num a) = (Num a, Suc k)"
proof -
  have "\<lfloor>rnd k\<rfloor> = 0" using assms by (simp add: floor_eq_iff)
  then show ?thesis by (simp add: getRandomInt_def Math_random_def jsub_def)
qed

lemma getRandomColor_zero_copy:
  assumes "validColor c" "unitInterval rnd"
  shows "getRandomColor rnd k (Some c) (Num 0) = (c, k + 3)"
proof -
  from assms(1) obtain r g b :: int where
    r: "c_r c = Num (of_int r)" and g: "c_g c = Num (of_int g)" and b: "c_b c = Num (of_int b)"
    by (auto simp: validColor_def channel_def)
  have u: "\<And>i. 0 \<le> rnd i" "\<And>i. rnd i < 1" using assms(2) by (simp_all add: unitInterval_def)
  have "getRandomColor rnd k (Some c) (Num 0) = (Color (c_r c) (c_g c) (c_b c), k + 3)"
    by (simp add: getRandomColor_def r g b jsub_def getRandomInt_same u)
  then show ?thesis by (simp only: Color_valid_id [OF assms(1)])
qed

text \<open>
  C7. With randomness 0, \<^verbatim>\<open>getRandomColor\<close> returns a color with exactly the channels
  of its input, whatever the random source yields in \<open>[0, 1)\<close>; it reads three random
  numbers. The input is a color of the data model: integer channels from 0 to 255.
\<close>

theorem getRandomColor_zero:
  assumes "validColor c" "unitInterval rnd"
  shows "fst (getRandomColor rnd k (Some c) (Num 0)) = c \<and>
    c_r (fst (getRandomColor rnd k (Some c) (Num 0))) = c_r c \<and>
    c_g (fst (getRandomColor rnd k (Some c) (Num 0))) = c_g c \<and>
    c_b (fst (getRandomColor rnd k (Some c) (Num 0))) = c_b c"
  by (simp add: getRandomColor_zero_copy [OF assms])

theorem getRandomColor_zero_witness:
  "validColor \<lparr>c_r = Num 80, c_g = Num 90, c_b = Num 250\<rparr> \<and> unitInterval (\<lambda>i. 1 / 2) \<and>
   fst (getRandomColor (\<lambda>i. 1 / 2) 0 (Some \<lparr>c_r = Num 80, c_g = Num 90, c_b = Num 250\<rparr>) (Num 0))
     = \<lparr>c_r = Num 80, c_g = Num 90, c_b = Num 250\<rparr>"
proof -
  have "channel (Num 80)" "channel (Num 90)" "channel (Num 250)"
    unfolding channel_def
    by (rule exI [of _ 80], simp) (rule exI [of _ 90], simp, rule exI [of _ 250], simp)
  then have v: "validColor \<lparr>c_r = Num 80, c_g = Num 90, c_b = Num 250\<rparr>"
    by (simp add: validColor_def)
  have u: "unitInterval (\<lambda>i. 1 / 2)" by (simp add: unitInterval_def)
  from getRandomColor_zero [OF v u, of 0] v u show ?thesis by simp
qed

section \<open>Properties of grid construction\<close>

lemma inheritedColor_Inr:
  assumes "\<And>prev. nth_opt grid (int li - 1) = Some prev \<Longrightarrow> j < length prev"
  shows "\<exists>c. inheritedColor grid line li j sc = Inr c"
  using assms
  by (auto simp: inheritedColor_def Let_def nth_opt_def split: option.splits)

lemma newNode_counter:
  assumes "newNode rnd s grid line li j k = Inr (nd, k')"
  shows "k' = k + 11"
  using assms
  by (auto simp: newNode_def getRandomInt_def Math_random_def Let_def getRandomColor_counter
      split: prod.splits sum.splits dest!: arg_cong [where f = snd])

lemma newNode_Inr:
  assumes "\<And>prev. nth_opt grid (int li - 1) = Some prev \<Longrightarrow> j < length prev"
  shows "\<exists>nd. newNode rnd s grid line li j k = Inr (nd, k + 11)"
proof -
  have "\<exists>c. inheritedColor grid line li j sc = Inr c" for sc
    using inheritedColor_Inr [OF assms] by blast
  then have "\<exists>nd k'. newNode rnd s grid line li j k = Inr (nd, k')"
    unfolding newNode_def Let_def
    by (simp split: prod.splits sum.splits) (metis old.sum.distinct(1))
  then show ?thesis using newNode_counter by blast
qed

lemma nodeLoop_Inr:
  assumes "nodeLoop rnd s grid li n line k = Inr (line', k')" "length line \<le> n"
  shows "length line' = n \<and> take (length line) line' = line \<and> k' = k + 11 * (n - length line) \<and>
    (\<forall>j. length line \<le> j \<and> j < n \<longrightarrow>
       newNode rnd s grid (take j line') li j (k + 11 * (j - length line)) =
         Inr (line' ! j, k + 11 * (j - length line) + 11))"
  using assms
proof (induction rnd s grid li n line k rule: nodeLoop.induct)
  case (1 rnd s grid li n line k)
  show ?case
  proof (cases "length line < n")
    case False
    with "1.prems" show ?thesis by (subst (asm) nodeLoop.simps) auto
  next
    case True
    with "1.prems" obtain nd k1 where
      nn: "newNode rnd s grid line li (length line) k = Inr (nd, k1)" and
      rest: "nodeLoop rnd s grid li n (line @ [nd]) k1 = Inr (line', k')"
      by (subst (asm) nodeLoop.simps) (auto split: sum.splits)
    have k1: "k1 = k + 11" using nn by (rule newNode_counter)
    have le: "length (line @ [nd]) \<le> n" using True by simp
    note ih = "1.IH" [OF True nn refl rest le]
    from ih have len: "length line' = n" by simp
    from ih have tk: "take (Suc (length line)) line' = line @ [nd]" by simp
    have tk0: "take (length line) line' = line"
      using arg_cong [OF tk, of "take (length line)"] by (simp add: min_def)
    have nth: "line' ! length line = nd"
      using arg_cong [OF tk, of "\<lambda>xs. xs ! length line"] by simp
    from ih have kk: "k' = k + 11 * (n - length line)" using True k1 by simp
    have "newNode rnd s grid (take j line') li j (k + 11 * (j - length line)) =
         Inr (line' ! j, k + 11 * (j - length line) + 11)" if j: "length line \<le> j" "j < n" for j
    proof (cases "j = length line")
      case True
      then show ?thesis using nn k1 tk0 nth by simp
    next
      case False
      with j have j': "length (line @ [nd]) \<le> j \<and> j < n" by simp
      have "k1 + 11 * (j - length (line @ [nd])) = k + 11 * (j - length line)"
        using j' k1 by auto
      with ih j' show ?thesis by metis
    qed
    with len tk0 kk show ?thesis by blast
  qed
qed

lemma nodeLoop_total:
  assumes "\<And>prev. nth_opt grid (int li - 1) = Some prev \<Longrightarrow> n \<le> length prev"
  shows "\<exists>line'. nodeLoop rnd s grid li n line k = Inr (line', k + 11 * (n - length line))"
  using assms
proof (induction rnd s grid li n line k rule: nodeLoop.induct)
  case (1 rnd s grid li n line k)
  show ?case
  proof (cases "length line < n")
    case False
    then show ?thesis by (subst nodeLoop.simps) simp
  next
    case True
    have "\<And>prev. nth_opt grid (int li - 1) = Some prev \<Longrightarrow> length line < length prev"
      using "1.prems" True by fastforce
    from newNode_Inr [OF this] obtain nd where
      nn: "newNode rnd s grid line li (length line) k = Inr (nd, k + 11)" by blast
    from "1.IH" [OF True nn refl "1.prems"] obtain line' where
      "nodeLoop rnd s grid li n (line @ [nd]) (k + 11) =
         Inr (line', k + 11 + 11 * (n - length (line @ [nd])))" by blast
    moreover have "k + 11 + 11 * (n - length (line @ [nd])) = k + 11 * (n - length line)"
      using True by simp
    ultimately show ?thesis using True nn by (subst nodeLoop.simps) simp
  qed
qed

lemma lineLoop_newArray:
  assumes "lineLoop rnd cv s m grid k = Inr (g', k')" "length grid < m"
  shows "\<exists>n. newArray (jadd (parseInt (jdiv (Num (of_nat (height cv))) (gridSize s))) (Num 5)) = Inr n"
  using assms by (subst (asm) lineLoop.simps) (auto split: sum.splits)

lemma lineLoop_Inr:
  assumes "lineLoop rnd cv s m grid k = Inr (g', k')" "length grid \<le> m"
    and "newArray (jadd (parseInt (jdiv (Num (of_nat (height cv))) (gridSize s))) (Num 5)) = Inr n"
  shows "length g' = m \<and> take (length grid) g' = grid \<and> k' = k + 11 * n * (m - length grid) \<and>
    (\<forall>i. length grid \<le> i \<and> i < m \<longrightarrow>
       nodeLoop rnd s (take i g') i n [] (k + 11 * n * (i - length grid)) =
         Inr (g' ! i, k + 11 * n * (i - length grid) + 11 * n))"
  using assms
proof (induction rnd cv s m grid k rule: lineLoop.induct)
  case (1 rnd cv s m grid k)
  note hn = "1.prems"(3)
  show ?case
  proof (cases "length grid < m")
    case False
    with "1.prems" show ?thesis by (subst (asm) lineLoop.simps) auto
  next
    case True
    with "1.prems" obtain line k1 where
      nl: "nodeLoop rnd s grid (length grid) n [] k = Inr (line, k1)" and
      rest: "lineLoop rnd cv s m (grid @ [line]) k1 = Inr (g', k')"
      by (subst (asm) lineLoop.simps) (auto split: sum.splits)
    have k1: "k1 = k + 11 * n" using nodeLoop_Inr [OF nl] by simp
    have le: "length (grid @ [line]) \<le> m" using True by simp
    note ih = "1.IH" [OF True hn nl refl rest le hn]
    from ih have len: "length g' = m" by simp
    from ih have tk: "take (Suc (length grid)) g' = grid @ [line]" by simp
    have tk0: "take (length grid) g' = grid"
      using arg_cong [OF tk, of "take (length grid)"] by (simp add: min_def)
    have nth: "g' ! length grid = line"
      using arg_cong [OF tk, of "\<lambda>xs. xs ! length grid"] by simp
    have "m - length grid = Suc (m - length (grid @ [line]))" using True by auto
    then have "k1 + 11 * n * (m - length (grid @ [line])) = k + 11 * n * (m - length grid)"
      using k1 by simp
    with ih have kk: "k' = k + 11 * n * (m - length grid)" by simp
    have "nodeLoop rnd s (take i g') i n [] (k + 11 * n * (i - length grid)) =
         Inr (g' ! i, k + 11 * n * (i - length grid) + 11 * n)"
      if i: "length grid \<le> i" "i < m" for i
    proof (cases "i = length grid")
      case True
      then show ?thesis using nl k1 tk0 nth by simp
    next
      case False
      with i have i': "length (grid @ [line]) \<le> i \<and> i < m" by simp
      then have "i - length grid = Suc (i - length (grid @ [line]))" by auto
      then have "k1 + 11 * n * (i - length (grid @ [line])) = k + 11 * n * (i - length grid)"
        using k1 by simp
      with ih i' show ?thesis by metis
    qed
    with len tk0 kk show ?thesis by blast
  qed
qed

lemma nth_opt_last:
  "nth_opt grid (int (length grid) - 1) = (if grid = [] then None else Some (last grid))"
  by (cases grid rule: rev_cases) (auto simp: nth_opt_def nth_append)

lemma lineLoop_total:
  assumes "newArray (jadd (parseInt (jdiv (Num (of_nat (height cv))) (gridSize s))) (Num 5)) = Inr n"
    and "\<forall>l \<in> set grid. length l = n"
  shows "\<exists>g'. lineLoop rnd cv s m grid k = Inr (g', k + 11 * n * (m - length grid))"
  using assms
proof (induction rnd cv s m grid k rule: lineLoop.induct)
  case (1 rnd cv s m grid k)
  note hn = "1.prems"(1)
  show ?case
  proof (cases "length grid < m")
    case False
    then show ?thesis by (subst lineLoop.simps) simp
  next
    case True
    have pv: "n \<le> length prev" if "nth_opt grid (int (length grid) - 1) = Some prev" for prev
      using that "1.prems"(2) by (auto simp: nth_opt_last split: if_splits)
    have "\<exists>line'. nodeLoop rnd s grid (length grid) n [] k =
        Inr (line', k + 11 * (n - length ([] :: node list)))"
      by (rule nodeLoop_total) (rule pv)
    then obtain line where
      nl: "nodeLoop rnd s grid (length grid) n [] k = Inr (line, k + 11 * n)" by auto
    have ll: "length line = n" using nodeLoop_Inr [OF nl] by simp
    have all: "\<forall>l \<in> set (grid @ [line]). length l = n" using "1.prems"(2) ll by simp
    from "1.IH" [OF True hn nl refl hn all] obtain g' where
      "lineLoop rnd cv s m (grid @ [line]) (k + 11 * n) =
         Inr (g', k + 11 * n + 11 * n * (m - length (grid @ [line])))" by blast
    moreover have "m - length grid = Suc (m - length (grid @ [line]))" using True by auto
    then have "k + 11 * n + 11 * n * (m - length (grid @ [line])) =
        k + 11 * n * (m - length grid)"
      by simp
    ultimately show ?thesis using True nl hn by (subst lineLoop.simps) simp
  qed
qed

lemma newGrid_length:
  assumes "newGrid rnd cv s k = Inr (g, k')"
  shows "newArray (jadd (parseInt (jdiv (Num (of_nat (width cv))) (gridSize s))) (Num 5)) =
    Inr (length g)"
proof -
  from assms obtain m where
    m: "newArray (jadd (parseInt (jdiv (Num (of_nat (width cv))) (gridSize s))) (Num 5)) = Inr m"
    and l: "lineLoop rnd cv s m [] k = Inr (g, k')"
    by (auto simp: newGrid_def split: sum.splits)
  show ?thesis
  proof (cases "0 < m")
    case False
    then show ?thesis using l m by (subst (asm) lineLoop.simps) simp
  next
    case True
    then obtain n where
      "newArray (jadd (parseInt (jdiv (Num (of_nat (height cv))) (gridSize s))) (Num 5)) = Inr n"
      using lineLoop_newArray [OF l] by auto
    from lineLoop_Inr [OF l _ this] m show ?thesis by simp
  qed
qed

lemma newGrid_node:
  assumes "newGrid rnd cv s k = Inr (g, k')" "i < length g"
  shows "newArray (jadd (parseInt (jdiv (Num (of_nat (height cv))) (gridSize s))) (Num 5)) =
      Inr (length (g ! i))"
    and "j < length (g ! i) \<Longrightarrow>
      newNode rnd s (take i g) (take j (g ! i)) i j (k + 11 * (i * length (g ! i) + j)) =
        Inr (g ! i ! j, k + 11 * (i * length (g ! i) + j) + 11)"
proof -
  from assms(1) obtain m where
    m: "newArray (jadd (parseInt (jdiv (Num (of_nat (width cv))) (gridSize s))) (Num 5)) = Inr m"
    and l: "lineLoop rnd cv s m [] k = Inr (g, k')"
    by (auto simp: newGrid_def split: sum.splits)
  have mg: "m = length g" using newGrid_length [OF assms(1)] m by simp
  with assms(2) have "length ([] :: grid) < m" by auto
  from lineLoop_newArray [OF l this] obtain n where
    n: "newArray (jadd (parseInt (jdiv (Num (of_nat (height cv))) (gridSize s))) (Num 5)) = Inr n"
    by auto
  from lineLoop_Inr [OF l _ n] assms(2) mg have
    nl: "nodeLoop rnd s (take i g) i n [] (k + 11 * n * i) = Inr (g ! i, k + 11 * n * i + 11 * n)"
    by simp
  from nodeLoop_Inr [OF nl] have len: "length (g ! i) = n" by simp
  with n show "newArray (jadd (parseInt (jdiv (Num (of_nat (height cv))) (gridSize s))) (Num 5)) =
      Inr (length (g ! i))" by simp
  assume "j < length (g ! i)"
  with nodeLoop_Inr [OF nl] len have
    "newNode rnd s (take i g) (take j (g ! i)) i j (k + 11 * n * i + 11 * j) =
       Inr (g ! i ! j, k + 11 * n * i + 11 * j + 11)" by simp
  moreover have "k + 11 * n * i + 11 * j = k + 11 * (i * length (g ! i) + j)"
    using len by (simp add: algebra_simps)
  ultimately show "newNode rnd s (take i g) (take j (g ! i)) i j (k + 11 * (i * length (g ! i) + j)) =
        Inr (g ! i ! j, k + 11 * (i * length (g ! i) + j) + 11)" by simp
qed

lemma newGrid_total:
  assumes "newArray (jadd (parseInt (jdiv (Num (of_nat (width cv))) (gridSize s))) (Num 5)) = Inr m"
    and "newArray (jadd (parseInt (jdiv (Num (of_nat (height cv))) (gridSize s))) (Num 5)) = Inr n"
  shows "\<exists>g. newGrid rnd cv s k = Inr (g, k + 11 * n * m)"
  using lineLoop_total [OF assms(2), of "[]" rnd m k] assms(1) by (simp add: newGrid_def)

lemma newArray_quotient:
  assumes "0 < c" "c \<le> 10 ^ 6" "real w / c + 5 < 2 ^ 32"
  shows "newArray (jadd (parseInt (jdiv (Num (of_nat w)) (Num c))) (Num 5)) =
    Inr (nat \<lfloor>real w / c\<rfloor> + 5)"
proof -
  have q0: "0 \<le> real w / c" using assms(1) by simp
  have dec: "decimalNotation (real w / c)"
  proof (cases "w = 0")
    case True then show ?thesis by (simp add: decimalNotation_def)
  next
    case False
    then have "1 \<le> real w" by simp
    then have "c / 10 ^ 6 \<le> real w" using assms(2) by simp
    then have "1 / 10 ^ 6 \<le> real w / c" using assms(1) by (simp add: field_simps)
    moreover have "real w / c < 10 ^ 21" using assms(3) by simp
    ultimately show ?thesis unfolding decimalNotation_def abs_of_nonneg [OF q0] by blast
  qed
  have "\<not> real w / c < 0" using q0 by (simp only: not_less)
  then have t: "trunc (real w / c) = \<lfloor>real w / c\<rfloor>"
    unfolding trunc_def by (simp only: if_False)
  have "jdiv (Num (of_nat w)) (Num c) = Num (real w / c)" using assms(1) by simp
  then have "parseInt (jdiv (Num (of_nat w)) (Num c)) = Num (of_int \<lfloor>real w / c\<rfloor>)"
    using dec by (simp only: parseInt.simps if_True t)
  moreover have "0 \<le> \<lfloor>real w / c\<rfloor>" using q0 by simp
  moreover have "real_of_int \<lfloor>real w / c\<rfloor> + 5 < 2 ^ 32"
    using assms(3) by (smt (verit) of_int_floor_le)
  moreover have "real_of_int \<lfloor>real w / c\<rfloor> + 5 = of_int (\<lfloor>real w / c\<rfloor> + 5)" by simp
  ultimately show ?thesis
    by (simp add: nat_add_distrib del: of_int_add)
qed

lemma jor_idem: "jor (jor a (Num 0)) (Num 0) = jor a (Num 0)"
  by (simp add: jor_def)

lemma Point_idem: "Point (px (Point a b)) (py (Point a b)) = Point a b"
  by (simp add: Point_def jor_idem)

lemma newNode_rest:
  assumes "newNode rnd s grid line li j k = Inr (nd, k')"
  shows "orgPos nd = currPos nd"
  using assms
  by (auto simp: newNode_def Let_def move_def Point_idem split: prod.splits sum.splits)

lemma newGrid_size:
  assumes "gridSize s = Num c" "0 < c" "c \<le> 10 ^ 6"
    "real (width cv) / c + 5 < 2 ^ 32" "real (height cv) / c + 5 < 2 ^ 32"
  shows "\<exists>g k'. newGrid rnd cv s k = Inr (g, k') \<and>
    length g = nat \<lfloor>real (width cv) / c\<rfloor> + 5 \<and>
    (\<forall>l \<in> set g. length l = nat \<lfloor>real (height cv) / c\<rfloor> + 5)"
proof -
  note m = newArray_quotient [OF assms(2,3,4)] and n = newArray_quotient [OF assms(2,3,5)]
  from newGrid_total [of cv s, unfolded assms(1), OF m n, of rnd k] obtain g k' where
    g: "newGrid rnd cv s k = Inr (g, k')" unfolding assms(1) by blast
  have "length g = nat \<lfloor>real (width cv) / c\<rfloor> + 5"
    using newGrid_length [OF g] m by (simp add: assms(1))
  moreover have "length l = nat \<lfloor>real (height cv) / c\<rfloor> + 5" if "l \<in> set g" for l
  proof -
    from that obtain i where "i < length g" "l = g ! i" by (auto simp: in_set_conv_nth)
    with newGrid_node(1) [OF g this(1)] n show ?thesis by (simp add: assms(1))
  qed
  ultimately show ?thesis using g by blast
qed





text \<open>
  C8. In the grid \<^verbatim>\<open>newGrid\<close> returns, the rest position \<^verbatim>\<open>orgPos\<close> of every node equals
  its current position \<^verbatim>\<open>currPos\<close>: the same \<^verbatim>\<open>x\<close> and the same \<^verbatim>\<open>y\<close>.
\<close>

theorem newGrid_rest_is_current:
  assumes "newGrid rnd cv s k = Inr (g, k')" "i < length g" "j < length (g ! i)"
  shows "orgPos (g ! i ! j) = currPos (g ! i ! j) \<and>
    px (orgPos (g ! i ! j)) = px (currPos (g ! i ! j)) \<and>
    py (orgPos (g ! i ! j)) = py (currPos (g ! i ! j))"
  using newNode_rest [OF newGrid_node(2) [OF assms]] by simp

theorem newGrid_rest_is_current_witness:
  "\<exists>g k'. newGrid (\<lambda>i. 1 / 2) \<lparr>width = 400, height = 200\<rparr> (programSettings (Num 80)) 0 = Inr (g, k') \<and>
     3 < length g \<and> 4 < length (g ! 3) \<and> orgPos (g ! 3 ! 4) = currPos (g ! 3 ! 4)"
proof -
  have "gridSize (programSettings (Num 80)) = Num 80" by (simp add: programSettings_def)
  from newGrid_size [OF this, of "\<lparr>width = 400, height = 200\<rparr>" "\<lambda>i. 1 / 2" 0]
  obtain g k' where
    g: "newGrid (\<lambda>i. 1 / 2) \<lparr>width = 400, height = 200\<rparr> (programSettings (Num 80)) 0 = Inr (g, k')"
    "length g = 10" "\<forall>l \<in> set g. length l = 7"
    by auto
  have i: "3 < length g" using g(2) by simp
  then have j: "4 < length (g ! 3)" using g(3) by simp
  from newGrid_rest_is_current [OF g(1) i j] g(1) i j show ?thesis by blast
qed

lemma newNode_colors:
  assumes "newNode rnd s grid line li j k = Inr (nd, k')"
  shows "\<exists>c. inheritedColor grid line li j
        (fst (getRandomColor rnd (k + 2) (startColor s) (startColorRandomness s))) = Inr c \<and>
      base_color nd = fst (getRandomColor rnd (k + 5) (Some c)
        (jor (overTimeColorRandomness s) (Num 0))) \<and>
      color nd = fst (getRandomColor rnd (k + 8) (Some (base_color nd)) (Num 0))"
proof -
  have e: "k + 2 = Suc (Suc k)" "k + 5 = Suc (Suc k) + 3" "k + 8 = Suc (Suc k) + 3 + 3" by simp_all
  show ?thesis
    using assms unfolding e
    by (auto simp: newNode_def Let_def prod_eq_iff getRandomInt_counter getRandomColor_counter
        split: prod.splits sum.splits)
qed

lemma nth_opt_take_prev:
  "i \<le> length g \<Longrightarrow> nth_opt (take i g) (int i - 1) = (if 0 < i then Some (g ! (i - 1)) else None)"
  by (auto simp: nth_opt_def nat_diff_distrib')

lemma nth_opt_int: "nth_opt xs (int j) = (if j < length xs then Some (xs ! j) else None)"
  by (simp add: nth_opt_def)

lemma nth_opt_prev:
  "nth_opt xs (int j - 1) = (if 0 < j \<and> j - 1 < length xs then Some (xs ! (j - 1)) else None)"
  by (auto simp: nth_opt_def nat_diff_distrib')

lemma inheritedColor_take:
  assumes "i < length g" "j < length (g ! i)" "0 < i \<Longrightarrow> j < length (g ! (i - 1))"
  shows "inheritedColor (take i g) (take j (g ! i)) i j sc =
    Inr (Color (c_r (sourceColor g i j sc)) (c_g (sourceColor g i j sc))
      (c_b (sourceColor g i j sc)))"
proof -
  have p: "nth_opt (take i g) (int i - 1) = (if 0 < i then Some (g ! (i - 1)) else None)"
    using assms(1) by (simp add: nth_opt_take_prev)
  have l: "nth_opt (take j (g ! i)) (int j - 1) = (if 0 < j then Some (g ! i ! (j - 1)) else None)"
    using assms(2) by (auto simp: nth_opt_prev)
  show ?thesis
  proof (cases "0 < i")
    case False
    then show ?thesis unfolding inheritedColor_def Let_def p l by (simp add: sourceColor_def)
  next
    case True
    with assms(3) have j: "j < length (g ! (i - 1))" by simp
    then have d: "nth_opt (g ! (i - Suc 0)) (int j - 1) =
        (if 0 < j then Some (g ! (i - Suc 0) ! (j - Suc 0)) else None)"
      by (auto simp: nth_opt_prev)
    show ?thesis unfolding inheritedColor_def Let_def p l using True j
      by (simp add: d nth_opt_int sourceColor_def)
  qed
qed

lemma newNode_color_valid:
  assumes "newNode rnd s grid line li j k = Inr (nd, k')"
  shows "validColor (color nd)"
proof -
  from newNode_colors [OF assms] have
    "color nd = fst (getRandomColor rnd (k + 8) (Some (base_color nd)) (Num 0))"
    and "tameColor (base_color nd)"
    by (auto simp: getRandomColor_tame)
  then show ?thesis using getRandomColor_valid [of "base_color nd" "Num 0" rnd "k + 8"] by simp
qed

lemma newGrid_color_valid:
  assumes "newGrid rnd cv s k = Inr (g, k')" "i < length g" "j < length (g ! i)"
  shows "validColor (color (g ! i ! j))"
  using newNode_color_valid [OF newGrid_node(2) [OF assms]] .

lemma newGrid_rectangular:
  assumes "newGrid rnd cv s k = Inr (g, k')" "i < length g" "i' < length g"
  shows "length (g ! i) = length (g ! i')"
  using newGrid_node(1) [OF assms(1,2)] newGrid_node(1) [OF assms(1,3)] by simp

lemma startColor_valid:
  assumes "tameStart s"
  shows "validColor (fst (getRandomColor rnd k (startColor s) (startColorRandomness s)))"
  using assms
  by (auto simp: tameStart_def getRandomColor_valid getRandomColor_None_valid split: option.splits)

lemma sourceColor_valid:
  assumes "newGrid rnd cv s k = Inr (g, k')" "i < length g" "j < length (g ! i)" "validColor sc"
  shows "validColor (sourceColor g i j sc)"
proof -
  have v: "validColor (color (g ! i' ! j'))" if "i' < length g" "j' < length (g ! i)" for i' j'
    using newGrid_color_valid [OF assms(1) that(1)] that newGrid_rectangular [OF assms(1,2) that(1)]
    by simp
  have a: "channel (c_r (color (g ! (i - 1) ! j)))" if "0 < i"
    using v [of "i - 1" j] that assms(2,3) by (simp add: validColor_def)
  have b: "channel (c_g (color (g ! (i - 1) ! (j - 1))))" if "0 < i"
    using v [of "i - 1" "j - 1"] that assms(2,3) by (simp add: validColor_def)
  have c: "channel (c_b (color (g ! i ! (j - 1))))"
    using v [of i "j - 1"] assms(2,3) by (simp add: validColor_def)
  show ?thesis using a b c assms(4) by (auto simp: sourceColor_def validColor_def)
qed

lemma newGrid_base:
  assumes "newGrid rnd cv s k = Inr (g, k')" "i < length g" "j < length (g ! i)" "tameStart s"
  shows "base_color (g ! i ! j) =
    fst (getRandomColor rnd (k + 11 * (i * length (g ! i) + j) + 5)
      (Some (sourceColor g i j
         (fst (getRandomColor rnd (k + 11 * (i * length (g ! i) + j) + 2)
            (startColor s) (startColorRandomness s)))))
      (jor (overTimeColorRandomness s) (Num 0)))"
proof -
  define k0 where "k0 = k + 11 * (i * length (g ! i) + j)"
  define sc where "sc = fst (getRandomColor rnd (k0 + 2) (startColor s) (startColorRandomness s))"
  have sv: "validColor sc" unfolding sc_def using assms(4) by (rule startColor_valid)
  have r: "0 < i \<Longrightarrow> j < length (g ! (i - 1))"
    using newGrid_rectangular [OF assms(1,2), of "i - 1"] assms(2,3) by simp
  from newNode_colors [OF newGrid_node(2) [OF assms(1,2,3)]] obtain c where
    c: "inheritedColor (take i g) (take j (g ! i)) i j sc = Inr c" and
    b: "base_color (g ! i ! j) =
      fst (getRandomColor rnd (k0 + 5) (Some c) (jor (overTimeColorRandomness s) (Num 0)))"
    unfolding k0_def sc_def by blast
  from c inheritedColor_take [OF assms(2,3) r, of sc]
  have "c = Color (c_r (sourceColor g i j sc)) (c_g (sourceColor g i j sc))
      (c_b (sourceColor g i j sc))" by simp
  also have "\<dots> = sourceColor g i j sc"
    by (rule Color_valid_id) (rule sourceColor_valid [OF assms(1,2,3) sv])
  finally show ?thesis using b unfolding k0_def sc_def by simp
qed

text \<open>
  C6 (as the code has it). In the grid \<^verbatim>\<open>newGrid\<close> returns, the base color of the node
  at \<open>(i, j)\<close> is the perturbation, by \<^verbatim>\<open>getRandomColor\<close> with the over-time randomness,
  of a color that takes its red channel from the node at \<open>(i - 1, j)\<close>, its green
  channel from the node at \<open>(i - 1, j - 1)\<close> and its blue channel from the node at
  \<open>(i, j - 1)\<close>, and each from the node's own start color where that node does not
  exist. That start color is not the configured one: it is drawn afresh for every
  node by \<^verbatim>\<open>getRandomColor(s.startColor, s.startColorRandomness)\<close>. The node at
  \<open>(i, j)\<close> reads the eleven random numbers from \<open>k + 11 (i n + j)\<close> on, \<open>n\<close> being
  the length of a line.
\<close>

theorem newGrid_base_color:
  assumes "newGrid rnd cv s k = Inr (g, k')" "i < length g" "j < length (g ! i)" "tameStart s"
  shows "base_color (g ! i ! j) =
    fst (getRandomColor rnd (k + 11 * (i * length (g ! i) + j) + 5)
      (Some (sourceColor g i j
         (fst (getRandomColor rnd (k + 11 * (i * length (g ! i) + j) + 2)
            (startColor s) (startColorRandomness s)))))
      (jor (overTimeColorRandomness s) (Num 0)))"
  using assms by (rule newGrid_base)

lemma programSettings_tameStart: "tameStart (programSettings c)"
  using Color_tame [of "Num 80" "Num 90" "Num 250"]
  by (simp add: tameStart_def programSettings_def)

lemma programSettings_tameStart': "tameStart ((programSettings c)\<lparr>overTimeColorRandomness := q\<rparr>)"
  using Color_tame [of "Num 80" "Num 90" "Num 250"]
  by (simp add: tameStart_def programSettings_def)

theorem newGrid_base_color_witness:
  "\<exists>g k'. newGrid (\<lambda>i. 99 / 100) \<lparr>width = 0, height = 0\<rparr> (programSettings (Num 80)) 0 = Inr (g, k') \<and>
     1 < length g \<and> 1 < length (g ! 1) \<and> tameStart (programSettings (Num 80)) \<and>
     base_color (g ! 1 ! 1) =
       fst (getRandomColor (\<lambda>i. 99 / 100) 71
         (Some \<lparr>c_r = c_r (color (g ! 0 ! 1)), c_g = c_g (color (g ! 0 ! 0)),
                c_b = c_b (color (g ! 1 ! 0))\<rparr>) (Num 5))"
proof -
  have "gridSize (programSettings (Num 80)) = Num 80" by (simp add: programSettings_def)
  from newGrid_size [OF this, of "\<lparr>width = 0, height = 0\<rparr>" "\<lambda>i. 99 / 100" 0]
  obtain g k' where
    g: "newGrid (\<lambda>i. 99 / 100) \<lparr>width = 0, height = 0\<rparr> (programSettings (Num 80)) 0 = Inr (g, k')"
    "length g = 5" "\<forall>l \<in> set g. length l = 5"
    by auto
  have i: "1 < length g" using g(2) by simp
  then have l: "length (g ! 1) = 5" using g(3) by simp
  then have j: "1 < length (g ! 1)" by simp
  note t = programSettings_tameStart [of "Num 80"]
  from newGrid_base_color [OF g(1) i j t] g(1) i j t l show ?thesis
    by (auto simp: sourceColor_def programSettings_def jor_def)
qed

text \<open>
  The claim that a node without neighbours takes its channels from the configured
  start color fails. With the program's start color (80, 90, 250), start randomness
  10 and every random number 0.99, the first node's base color is (98, 107, 251),
  although the over-time randomness 0 leaves the inherited color unperturbed.
\<close>

lemma example_startColor:
  "fst (getRandomColor (\<lambda>i. 99 / 100) k (Some (Color (Num 80) (Num 90) (Num 250))) (Num 10)) =
    \<lparr>c_r = Num 98, c_g = Num 107, c_b = Num 251\<rparr>"
  by code_simp

theorem newGrid_start_color_randomised:
  "\<exists>g k'. newGrid (\<lambda>i. 99 / 100) \<lparr>width = 0, height = 0\<rparr>
       ((programSettings (Num 80))\<lparr>overTimeColorRandomness := Num 0\<rparr>) 0 = Inr (g, k') \<and>
     base_color (g ! 0 ! 0) = \<lparr>c_r = Num 98, c_g = Num 107, c_b = Num 251\<rparr> \<and>
     c_r (base_color (g ! 0 ! 0)) \<noteq> Num 80 \<and>
     startColor ((programSettings (Num 80))\<lparr>overTimeColorRandomness := Num 0\<rparr>) =
       Some \<lparr>c_r = Num 80, c_g = Num 90, c_b = Num 250\<rparr>"
proof -
  let ?s = "(programSettings (Num 80))\<lparr>overTimeColorRandomness := Num 0\<rparr>"
  let ?sc = "\<lparr>c_r = Num 98, c_g = Num 107, c_b = Num 251\<rparr>"
  have "gridSize ?s = Num 80" by (simp add: programSettings_def)
  from newGrid_size [OF this, of "\<lparr>width = 0, height = 0\<rparr>" "\<lambda>i. 99 / 100" 0]
  obtain g k' where
    g: "newGrid (\<lambda>i. 99 / 100) \<lparr>width = 0, height = 0\<rparr> ?s 0 = Inr (g, k')"
    "length g = 5" "\<forall>l \<in> set g. length l = 5"
    by auto
  have i: "0 < length g" using g(2) by simp
  then have l: "length (g ! 0) = 5" using g(3) by simp
  then have j: "0 < length (g ! 0)" by simp
  have src: "sourceColor g 0 0 ?sc = ?sc" by (simp add: sourceColor_def)
  have "channel (Num 98)" "channel (Num 107)" "channel (Num 251)"
    unfolding channel_def
    by (rule exI [of _ 98], simp) (rule exI [of _ 107], simp, rule exI [of _ 251], simp)
  then have v: "validColor ?sc" by (simp add: validColor_def)
  have u: "unitInterval (\<lambda>i. 99 / 100)" by (simp add: unitInterval_def)
  have "base_color (g ! 0 ! 0) = fst (getRandomColor (\<lambda>i. 99 / 100) 5 (Some ?sc) (Num 0))"
    using newGrid_base [OF g(1) i j programSettings_tameStart']
    by (simp add: example_startColor src jor_def programSettings_def)
  then have b: "base_color (g ! 0 ! 0) = ?sc"
    by (simp add: getRandomColor_zero_copy [OF v u])
  have "startColor ?s = Some \<lparr>c_r = Num 80, c_g = Num 90, c_b = Num 250\<rparr>"
    using Color_of_int [of 80 90 250] by (simp add: programSettings_def)
  with g(1) b show ?thesis by auto
qed

section \<open>Properties of the animation\<close>

lemma animateLine_length: "length (animateLine mp k line) = length line"
proof (induction mp k line rule: animateLine.induct)
  case (1 mp k line)
  then show ?case by (subst animateLine.simps) simp
qed

lemma animateLine_nth:
  "j < length line \<Longrightarrow>
    animateLine mp k line ! j =
      (if k \<le> j \<and> j < length line - 1 then animateNode mp (line ! j) else line ! j)"
proof (induction mp k line rule: animateLine.induct)
  case (1 mp k line)
  show ?case
  proof (cases "k < length line - 1")
    case False
    then show ?thesis by (subst animateLine.simps) auto
  next
    case True
    from "1.IH" [OF True] "1.prems" have
      "animateLine mp (Suc k) (line[k := animateNode mp (line ! k)]) ! j =
        (if Suc k \<le> j \<and> j < length line - 1
         then animateNode mp (line[k := animateNode mp (line ! k)] ! j)
         else line[k := animateNode mp (line ! k)] ! j)"
      by simp
    then show ?thesis using True "1.prems"
      by (subst animateLine.simps) (auto simp: nth_list_update)
  qed
qed

lemma animateLines_length: "length (animateLines mp k grid) = length grid"
proof (induction mp k grid rule: animateLines.induct)
  case (1 mp k grid)
  then show ?case by (subst animateLines.simps) simp
qed

lemma animateLines_nth:
  "i < length grid \<Longrightarrow>
    animateLines mp k grid ! i =
      (if k \<le> i \<and> i < length grid - 1 then animateLine mp 0 (grid ! i) else grid ! i)"
proof (induction mp k grid rule: animateLines.induct)
  case (1 mp k grid)
  show ?case
  proof (cases "k < length grid - 1")
    case False
    then show ?thesis by (subst animateLines.simps) auto
  next
    case True
    from "1.IH" [OF True] "1.prems" have
      "animateLines mp (Suc k) (grid[k := animateLine mp 0 (grid ! k)]) ! i =
        (if Suc k \<le> i \<and> i < length grid - 1
         then animateLine mp 0 (grid[k := animateLine mp 0 (grid ! k)] ! i)
         else grid[k := animateLine mp 0 (grid ! k)] ! i)"
      by simp
    then show ?thesis using True "1.prems"
      by (subst animateLines.simps) (auto simp: nth_list_update)
  qed
qed

lemma animateGrid_length: "length (animateGrid g mp) = length g"
  by (simp add: animateGrid_def animateLines_length)

lemma animateGrid_line_length:
  "i < length g \<Longrightarrow> length (animateGrid g mp ! i) = length (g ! i)"
  by (simp add: animateGrid_def animateLines_nth animateLine_length)

lemma animateGrid_nth:
  assumes "i < length g" "j < length (g ! i)"
  shows "animateGrid g mp ! i ! j =
    (if i < length g - 1 \<and> j < length (g ! i) - 1 then animateNode mp (g ! i ! j) else g ! i ! j)"
  using assms by (simp add: animateGrid_def animateLines_nth animateLine_nth)

lemma animateNode_frame:
  "orgPos (animateNode mp nd) = orgPos nd \<and> color (animateNode mp nd) = color nd \<and>
   base_color (animateNode mp nd) = base_color nd"
  by (simp add: animateNode_def settle_def displace_def Let_def split: option.splits)

lemma jor_Num_id [simp]: "jor (Num a) (Num 0) = Num a"
  by (simp add: jor_def)

lemma Point_Num [simp]: "Point (Num a) (Num b) = \<lparr>px = Num a, py = Num b\<rparr>"
  by (simp add: Point_def)

lemma Vector_Num [simp]: "Vector (Num a) (Num b) = \<lparr>vx = Num a, vy = Num b\<rparr>"
  by (simp add: Vector_def)

lemma Math_pow_2 [simp]: "Math_pow (Num a) 2 = Num (a * a)"
  by (simp add: numeral_2_eq_2)

lemma getDistance_Num [simp]:
  "getDistance \<lparr>vx = Num a, vy = Num b\<rparr> = Num (sqrt (a * a + b * b))"
proof -
  have "\<not> a * a + b * b < 0" by (simp add: not_less)
  then show ?thesis by (simp add: getDistance_def)
qed

lemma fromPoints_Num [simp]:
  "fromPoints \<lparr>px = Num a, py = Num b\<rparr> \<lparr>px = Num c, py = Num d\<rparr> =
    \<lparr>vx = Num (a - c), vy = Num (b - d)\<rparr>"
  by (simp add: fromPoints_def jsub_def)






























text \<open>
  In the value model \<^verbatim>\<open>animateGrid\<close> changes no rest position, no color and not the
  shape of the grid.
\<close>

lemma animateGrid_values_kept:
  "map (map orgPos) (animateGrid g mp) = map (map orgPos) g \<and>
   map (map color) (animateGrid g mp) = map (map color) g \<and>
   map (map base_color) (animateGrid g mp) = map (map base_color) g \<and>
   map length (animateGrid g mp) = map length g"
  by (auto simp: list_eq_iff_nth_eq animateGrid_length animateGrid_line_length animateGrid_nth
      animateNode_frame)

section \<open>Properties of the store\<close>

lemma settleR_frame:
  "fresh (settleR nd h) = fresh h \<and> (r \<noteq> currRef nd \<longrightarrow> cells (settleR nd h) r = cells h r)"
  by (simp add: settleR_def Let_def)

lemma displaceR_frame:
  assumes "displaceR mp nd h = (nd', h')"
  shows "orgRef nd' = orgRef nd \<and> base_colorR nd' = base_colorR nd \<and> colorR nd' = colorR nd \<and>
    (currRef nd' = currRef nd \<or> currRef nd' = fresh h) \<and> fresh h \<le> fresh h' \<and>
    (\<forall>r. r < fresh h \<longrightarrow> cells h' r = cells h r)"
  using assms
  by (auto simp: displaceR_def Let_def newPoint_def split: option.splits if_splits prod.splits)

lemma animateNodeR_frame:
  assumes "animateNodeR mp nd h = (nd', h')"
  shows "orgRef nd' = orgRef nd \<and> base_colorR nd' = base_colorR nd \<and> colorR nd' = colorR nd \<and>
    (currRef nd' = currRef nd \<or> currRef nd' = fresh h) \<and> fresh h \<le> fresh h' \<and>
    (\<forall>r. r < fresh h \<and> r \<noteq> currRef nd \<longrightarrow> cells h' r = cells h r)"
proof -
  from assms obtain h1 where d: "displaceR mp nd h = (nd', h1)" and s: "h' = settleR nd' h1"
    by (auto simp: animateNodeR_def split: prod.splits)
  note f = displaceR_frame [OF d]
  have "cells h' r = cells h r" if "r < fresh h" "r \<noteq> currRef nd" for r
  proof -
    from f that have "r \<noteq> currRef nd'" by auto
    then have "cells h' r = cells h1 r" unfolding s using settleR_frame [of nd' h1 r] by simp
    also have "\<dots> = cells h r" using f that(1) by simp
    finally show ?thesis .
  qed
  moreover have "fresh h \<le> fresh h'" unfolding s using f settleR_frame [of nd' h1] by simp
  ultimately show ?thesis using f by blast
qed

lemma animateLineR_frame:
  assumes "animateLineR mp k line h = (line', h')"
  shows "map orgRef line' = map orgRef line \<and> map colorR line' = map colorR line \<and>
    map base_colorR line' = map base_colorR line \<and> fresh h \<le> fresh h' \<and>
    (\<forall>r \<in> set (map currRef line'). r \<in> set (map currRef line) \<or> fresh h \<le> r) \<and>
    (\<forall>r. r < fresh h \<and> r \<notin> set (map currRef line) \<longrightarrow> cells h' r = cells h r)"
  using assms
proof (induction mp k line h rule: animateLineR.induct)
  case (1 mp k line h)
  show ?case
  proof (cases "k < length line - 1")
    case False
    with "1.prems" show ?thesis by (subst (asm) animateLineR.simps) auto
  next
    case True
    obtain nd h1 where a: "animateNodeR mp (line ! k) h = (nd, h1)" by (cases "animateNodeR mp (line ! k) h")
    with True "1.prems" have rest: "animateLineR mp (Suc k) (line[k := nd]) h1 = (line', h')"
      by (subst (asm) animateLineR.simps) simp
    note f = animateNodeR_frame [OF a]
    note ih = "1.IH" [OF True a [symmetric] refl rest]
    have kl: "k < length line" using True by simp
    have o: "map orgRef (line[k := nd]) = map orgRef line"
      using f kl by (simp add: map_update list_update_same_conv)
    have c: "map colorR (line[k := nd]) = map colorR line"
      using f kl by (simp add: map_update list_update_same_conv)
    have b: "map base_colorR (line[k := nd]) = map base_colorR line"
      using f kl by (simp add: map_update list_update_same_conv)
    have cr: "r \<in> set (map currRef line) \<or> r = fresh h" if "r \<in> set (map currRef (line[k := nd]))" for r
    proof -
      from that have "r \<in> set ((map currRef line)[k := currRef nd])" by (simp add: map_update)
      then have "r \<in> insert (currRef nd) (set (map currRef line))"
        using set_update_subset_insert by fastforce
      moreover have "currRef (line ! k) \<in> set (map currRef line)" using kl by simp
      ultimately show ?thesis using f by auto
    qed
    have fr: "fresh h \<le> fresh h1" using f by simp
    have 1: "fresh h \<le> fresh h'" using ih fr by simp
    have 2: "r \<in> set (map currRef line) \<or> fresh h \<le> r" if "r \<in> set (map currRef line')" for r
    proof -
      from ih that have "r \<in> set (map currRef (line[k := nd])) \<or> fresh h1 \<le> r" by blast
      then show ?thesis using cr [of r] fr by auto
    qed
    have 3: "cells h' r = cells h r" if "r < fresh h" "r \<notin> set (map currRef line)" for r
    proof -
      have "r \<notin> set (map currRef (line[k := nd]))" using cr [of r] that by auto
      moreover have "r < fresh h1" using that(1) fr by simp
      ultimately have "cells h' r = cells h1 r" using ih by blast
      moreover have "r \<noteq> currRef (line ! k)" using that(2) kl by auto
      ultimately show ?thesis using f that(1) by simp
    qed
    from ih o c b 1 2 3 show ?thesis by auto
  qed
qed

lemma set_concat_update:
  "i < length g \<Longrightarrow> set (concat (g[i := l])) \<subseteq> set (concat g) \<union> set l"
proof (induction g arbitrary: i)
  case Nil
  then show ?case by simp
next
  case (Cons a g)
  then show ?case by (cases i) auto
qed

lemma set_nth_concat: "i < length g \<Longrightarrow> set (g ! i) \<subseteq> set (concat g)"
  by (auto simp: in_set_conv_nth) (metis nth_mem)


lemma orgRefs_map: "orgRefs g = concat (map (map orgRef) g)"
  by (simp add: orgRefs_def map_concat)


lemma storeNode_props:
  assumes "storeNode nd h = (n, h')"
  shows "currRef n = fresh h \<and> orgRef n = Suc (fresh h) \<and> fresh h' = Suc (Suc (fresh h)) \<and>
    (\<forall>r. r < fresh h \<longrightarrow> cells h' r = cells h r) \<and> load h' n = nd"
  using assms by (auto simp: storeNode_def newPoint_def load_def Let_def)

lemma load_frame:
  assumes "\<forall>r. r < b \<longrightarrow> cells h' r = cells h r" "currRef n < b" "orgRef n < b"
  shows "load h' n = load h n"
  using assms by (simp add: load_def)

lemma storeLine_props:
  assumes "storeLine line h = (ns, h')" "even (fresh h - b)" "b \<le> fresh h"
  shows "fresh h \<le> fresh h' \<and> even (fresh h' - b) \<and>
    (\<forall>r. r < fresh h \<longrightarrow> cells h' r = cells h r) \<and> map (load h') ns = line \<and>
    (\<forall>n \<in> set ns. fresh h \<le> currRef n \<and> currRef n < fresh h' \<and> fresh h \<le> orgRef n \<and>
       orgRef n < fresh h' \<and> even (currRef n - b) \<and> odd (orgRef n - b))"
  using assms
proof (induction line arbitrary: h ns h')
  case Nil
  then show ?case by simp
next
  case (Cons nd line)
  obtain n h1 where sn: "storeNode nd h = (n, h1)" by (cases "storeNode nd h")
  obtain ns' h2 where sl: "storeLine line h1 = (ns', h2)" by (cases "storeLine line h1")
  from Cons.prems(1) sn sl have e: "ns = n # ns'" "h' = h2" by simp_all
  note p = storeNode_props [OF sn]
  have ev: "even (fresh h1 - b)" "b \<le> fresh h1" using p Cons.prems(2,3) by auto
  note ih = Cons.IH [OF sl ev]
  have fr: "fresh h < fresh h1" using p by simp
  have "load h2 n = load h1 n"
    using ih p by (intro load_frame [of "fresh h1"]) auto
  then have ld: "load h2 n = nd" using p by simp
  have "even (currRef n - b) \<and> odd (orgRef n - b)"
    using p Cons.prems(2,3) by (auto simp: Suc_diff_le)
  moreover have "cells h2 r = cells h r" if "r < fresh h" for r
    using ih p that fr by (metis less_trans)
  ultimately show ?case
    unfolding e using ih p ld fr by auto
qed

lemma storeGrid_props:
  assumes "storeGrid g h = (rg, h')" "even (fresh h - b)" "b \<le> fresh h"
  shows "fresh h \<le> fresh h' \<and> even (fresh h' - b) \<and>
    (\<forall>r. r < fresh h \<longrightarrow> cells h' r = cells h r) \<and> map (map (load h')) rg = g \<and>
    (\<forall>n \<in> set (concat rg). fresh h \<le> currRef n \<and> currRef n < fresh h' \<and>
       fresh h \<le> orgRef n \<and> orgRef n < fresh h' \<and> even (currRef n - b) \<and> odd (orgRef n - b))"
  using assms
proof (induction g arbitrary: h rg h')
  case Nil
  then show ?case by simp
next
  case (Cons line g)
  obtain l h1 where sl: "storeLine line h = (l, h1)" by (cases "storeLine line h")
  obtain ls h2 where sg: "storeGrid g h1 = (ls, h2)" by (cases "storeGrid g h1")
  from Cons.prems(1) sl sg have e: "rg = l # ls" "h' = h2" by simp_all
  note p = storeLine_props [OF sl Cons.prems(2,3)]
  have ev: "even (fresh h1 - b)" "b \<le> fresh h1" using p Cons.prems(3) by auto
  note ih = Cons.IH [OF sg ev]
  have "map (load h2) l = map (load h1) l"
  proof (rule map_cong [OF refl])
    fix n assume "n \<in> set l"
    with p have "currRef n < fresh h1" "orgRef n < fresh h1" by auto
    with ih show "load h2 n = load h1 n" by (intro load_frame [of "fresh h1"]) auto
  qed
  then have ld: "map (load h2) l = line" using p by simp
  have "cells h2 r = cells h r" if "r < fresh h" for r
    using ih p that by (metis less_le_trans)
  moreover have "\<forall>n \<in> set l. fresh h \<le> currRef n \<and> currRef n < fresh h2 \<and>
       fresh h \<le> orgRef n \<and> orgRef n < fresh h2 \<and> even (currRef n - b) \<and> odd (orgRef n - b)"
    using p ih by (metis less_le_trans)
  moreover have "\<forall>n \<in> set (concat ls). fresh h \<le> currRef n \<and> currRef n < fresh h2 \<and>
       fresh h \<le> orgRef n \<and> orgRef n < fresh h2 \<and> even (currRef n - b) \<and> odd (orgRef n - b)"
    using p ih by (metis le_trans)
  ultimately show ?case
    unfolding e using ih p ld by auto
qed

lemma storeGrid_restApart:
  assumes "storeGrid g h = (rg, h')"
  shows "restApart rg h' \<and> map (map (load h')) rg = g"
proof -
  have "even (fresh h - fresh h)" "fresh h \<le> fresh h" by simp_all
  note p = storeGrid_props [OF assms this]
  have "r < fresh h' \<and> r \<notin> set (currRefs rg)" if "r \<in> set (orgRefs rg)" for r
  proof -
    from that obtain n where n: "n \<in> set (concat rg)" "r = orgRef n" by (auto simp: orgRefs_def)
    with p have o: "r < fresh h'" "odd (r - fresh h)" by auto
    have "r \<noteq> currRef n'" if "n' \<in> set (concat rg)" for n'
      using p that o(2) by auto
    then show ?thesis using o(1) by (auto simp: currRefs_def)
  qed
  then show ?thesis using p by (simp add: restApart_def)
qed






lemma settleR_load:
  assumes "orgRef nd \<noteq> currRef nd"
  shows "load (settleR nd h) nd = settle (load h nd)"
  using assms by (simp add: settleR_def settle_def load_def Let_def)

lemma displaceR_load:
  assumes "displaceR mp nd h = (nd', h')" "orgRef nd < fresh h" "currRef nd < fresh h"
  shows "load h' nd' = displace (map_option (cells h) mp) (load h nd) \<and>
    currRef nd' < fresh h' \<and> orgRef nd' \<noteq> currRef nd' \<or> orgRef nd = currRef nd"
  using assms
  by (auto simp: displaceR_def displace_def load_def Let_def newPoint_def
      split: option.splits if_splits)

lemma animateNodeR_sim:
  assumes "animateNodeR mp nd h = (nd', h')" "orgRef nd \<noteq> currRef nd"
    "orgRef nd < fresh h" "currRef nd < fresh h"
  shows "load h' nd' = animateNode (map_option (cells h) mp) (load h nd) \<and>
    currRef nd' < fresh h'"
proof -
  from assms(1) obtain h1 where d: "displaceR mp nd h = (nd', h1)" and s: "h' = settleR nd' h1"
    by (auto simp: animateNodeR_def split: prod.splits)
  from displaceR_load [OF d assms(3,4)] assms(2) have
    l: "load h1 nd' = displace (map_option (cells h) mp) (load h nd)" and
    c: "currRef nd' < fresh h1" and n: "orgRef nd' \<noteq> currRef nd'" by auto
  have "load h' nd' = settle (load h1 nd')" unfolding s using n by (rule settleR_load)
  moreover have "fresh h' = fresh h1" unfolding s using settleR_frame [of nd' h1] by simp
  ultimately show ?thesis using l c by (simp add: animateNode_def)
qed

lemma animateLineR_sim:
  assumes "animateLineR mp k line h = (line', h')"
    "distinct (map currRef line)"
    "\<forall>n \<in> set line. orgRef n < fresh h \<and> currRef n < fresh h \<and> orgRef n \<notin> set (map currRef line)"
    "\<forall>m. mp = Some m \<longrightarrow> m < fresh h \<and> m \<notin> set (map currRef line)"
  shows "map (load h') line' = animateLine (map_option (cells h) mp) k (map (load h) line) \<and>
    distinct (map currRef line') \<and> (\<forall>n \<in> set line'. currRef n < fresh h')"
  using assms
proof (induction mp k line h rule: animateLineR.induct)
  case (1 mp k line h)
  let ?mpv = "map_option (cells h) mp"
  show ?case
  proof (cases "k < length line - 1")
    case False
    with "1.prems"(1) have "line' = line" "h' = h" by (subst (asm) animateLineR.simps, simp)+
    with False "1.prems" show ?thesis by (subst animateLine.simps) simp
  next
    case True
    obtain nd h1 where a: "animateNodeR mp (line ! k) h = (nd, h1)"
      by (cases "animateNodeR mp (line ! k) h")
    with True "1.prems"(1) have rest: "animateLineR mp (Suc k) (line[k := nd]) h1 = (line', h')"
      by (subst (asm) animateLineR.simps) simp
    have kl: "k < length line" using True by simp
    then have km: "line ! k \<in> set line" by simp
    with "1.prems"(3) have nk: "orgRef (line ! k) < fresh h" "currRef (line ! k) < fresh h"
      "orgRef (line ! k) \<noteq> currRef (line ! k)"
      by (auto simp del: nth_mem)
    note f = animateNodeR_frame [OF a]
    note sm = animateNodeR_sim [OF a nk(3) nk(1) nk(2)]
    have props: "orgRef n < fresh h \<and> currRef n < fresh h \<and> orgRef n \<notin> set (map currRef line)"
      if "n \<in> set line" for n using "1.prems"(3) that by blast
    have fr: "fresh h \<le> fresh h1" using f by simp
    have all_lt: "\<forall>r \<in> set (map currRef line). r < fresh h" using "1.prems"(3) by auto
    have cu: "map currRef (line[k := nd]) = (map currRef line)[k := currRef nd]"
      by (simp add: map_update)
    have sub: "set (map currRef (line[k := nd])) \<subseteq> insert (currRef nd) (set (map currRef line))"
      unfolding cu by (rule set_update_subset_insert)
    have d1: "distinct (map currRef (line[k := nd]))"
    proof (cases "currRef nd = currRef (line ! k)")
      case True
      then have "(map currRef line)[k := currRef nd] = map currRef line"
        using kl by (simp add: list_update_same_conv)
      then show ?thesis using "1.prems"(2) cu by simp
    next
      case False
      with f have "currRef nd = fresh h" by simp
      with all_lt have "currRef nd \<notin> set (map currRef line)" by auto
      then show ?thesis unfolding cu using "1.prems"(2) by (simp add: distinct_list_update)
    qed
    have b1: "\<forall>n \<in> set (line[k := nd]). orgRef n < fresh h1 \<and> currRef n < fresh h1 \<and>
        orgRef n \<notin> set (map currRef (line[k := nd]))"
    proof
      fix n assume "n \<in> set (line[k := nd])"
      then consider "n = nd" | "n \<in> set line" using set_update_subset_insert by fastforce
      then have o: "orgRef n < fresh h \<and> orgRef n \<notin> set (map currRef line) \<and> currRef n < fresh h1"
      proof cases
        case 1
        then show ?thesis using f sm props [OF km] by simp
      next
        case 2
        then show ?thesis using props [OF 2] fr by simp
      qed
      then have "orgRef n \<noteq> currRef nd" using f km by (auto simp del: nth_mem)
      with o sub fr show "orgRef n < fresh h1 \<and> currRef n < fresh h1 \<and>
        orgRef n \<notin> set (map currRef (line[k := nd]))" by auto
    qed
    have m1: "\<forall>m. mp = Some m \<longrightarrow> m < fresh h1 \<and> m \<notin> set (map currRef (line[k := nd]))"
    proof (intro allI impI)
      fix m assume "mp = Some m"
      with "1.prems"(4) have m: "m < fresh h" "m \<notin> set (map currRef line)" by auto
      then have "m \<noteq> currRef nd" using f km by (auto simp del: nth_mem)
      with m sub fr show "m < fresh h1 \<and> m \<notin> set (map currRef (line[k := nd]))" by auto
    qed
    note ih = "1.IH" [OF True a [symmetric] refl rest d1 b1 m1]
    have mv: "map_option (cells h1) mp = ?mpv"
    proof (cases mp)
      case None then show ?thesis by simp
    next
      case (Some m)
      with "1.prems"(4) have "m < fresh h" "m \<noteq> currRef (line ! k)"
        using km by (auto simp del: nth_mem)
      with f Some show ?thesis by simp
    qed
    have ld: "map (load h1) (line[k := nd]) =
        (map (load h) line)[k := animateNode ?mpv (map (load h) line ! k)]"
    proof (rule nth_equalityI)
      show "length (map (load h1) (line[k := nd])) =
          length ((map (load h) line)[k := animateNode ?mpv (map (load h) line ! k)])" by simp
    next
      fix j assume "j < length (map (load h1) (line[k := nd]))"
      then have jl: "j < length line" by simp
      show "map (load h1) (line[k := nd]) ! j =
          (map (load h) line)[k := animateNode ?mpv (map (load h) line ! k)] ! j"
      proof (cases "j = k")
        case True
        then show ?thesis using kl sm by simp
      next
        case False
        have jm: "line ! j \<in> set line" using jl by simp
        have "map currRef line ! j \<noteq> map currRef line ! k"
          using "1.prems"(2) jl kl False by (simp add: nth_eq_iff_index_eq del: nth_map)
        then have "currRef (line ! j) \<noteq> currRef (line ! k)" using jl kl by simp
        moreover have "orgRef (line ! j) \<noteq> currRef (line ! k)"
          using "1.prems"(3) jm km by (auto simp del: nth_mem)
        moreover have "orgRef (line ! j) < fresh h" "currRef (line ! j) < fresh h"
          using "1.prems"(3) jm by (auto simp del: nth_mem)
        ultimately have "load h1 (line ! j) = load h (line ! j)"
          using f by (simp add: load_def)
        then show ?thesis using False jl by simp
      qed
    qed
    have "animateLine ?mpv k (map (load h) line) =
        animateLine ?mpv (Suc k) ((map (load h) line)[k := animateNode ?mpv (map (load h) line ! k)])"
      using True by (subst animateLine.simps) simp
    with ih mv ld show ?thesis by simp
  qed
qed

lemma distinct_concat_update:
  assumes "distinct (concat xss)" "k < length xss" "distinct ys"
    "\<forall>y \<in> set ys. y \<in> set (xss ! k) \<or> y \<notin> set (concat xss)"
  shows "distinct (concat (xss[k := ys]))"
  using assms
proof (induction xss arbitrary: k)
  case Nil
  then show ?case by simp
next
  case (Cons xs xss)
  show ?case
  proof (cases k)
    case 0
    with Cons.prems show ?thesis by auto
  next
    case (Suc k')
    have "distinct (concat (xss[k' := ys]))"
      using Cons.prems Suc by (intro Cons.IH) auto
    moreover have "set xs \<inter> set (concat (xss[k' := ys])) = {}"
    proof -
      have "set (concat (xss[k' := ys])) \<subseteq> set (concat xss) \<union> set ys"
        using Cons.prems(2) Suc by (intro set_concat_update) simp
      moreover have "set xs \<inter> set (concat xss) = {}" using Cons.prems(1) by auto
      moreover have "set xs \<inter> set ys = {}"
      proof -
        have "y \<notin> set xs" if "y \<in> set ys" for y
        proof -
          from Cons.prems(4) that Suc have "y \<in> set (xss ! k') \<or> y \<notin> set (concat (xs # xss))"
            by auto
          moreover have "set (xss ! k') \<subseteq> set (concat xss)"
            using Cons.prems(2) Suc by (intro set_nth_concat) simp
          ultimately show ?thesis using \<open>set xs \<inter> set (concat xss) = {}\<close> by auto
        qed
        then show ?thesis by auto
      qed
      ultimately show ?thesis by blast
    qed
    ultimately show ?thesis using Cons.prems(1) Suc by simp
  qed
qed

lemma distinct_concat_lines:
  assumes "distinct (concat xss)" "i < length xss" "k < length xss" "i \<noteq> k"
  shows "set (xss ! i) \<inter> set (xss ! k) = {}"
  using assms
proof (induction xss arbitrary: i k)
  case Nil
  then show ?case by simp
next
  case (Cons xs xss)
  have d: "set xs \<inter> set (concat xss) = {}" "distinct (concat xss)" using Cons.prems(1) by auto
  show ?case
  proof (cases i)
    case 0
    with Cons.prems obtain k' where k: "k = Suc k'" "k' < length xss" by (cases k) auto
    then have "set (xss ! k') \<subseteq> set (concat xss)" by (intro set_nth_concat)
    with d 0 k show ?thesis by auto
  next
    case (Suc i')
    show ?thesis
    proof (cases k)
      case 0
      have "set (xss ! i') \<subseteq> set (concat xss)" using Cons.prems(2) Suc by (intro set_nth_concat) simp
      with d 0 Suc show ?thesis by auto
    next
      case (Suc k')
      with Cons.prems \<open>i = Suc i'\<close> d show ?thesis using Cons.IH [of i' k'] by simp
    qed
  qed
qed

lemma currRefs_concat: "currRefs g = concat (map (map currRef) g)"
  by (simp add: currRefs_def map_concat)

lemma currRefs_update:
  assumes "k < length g" "r \<in> set (currRefs (g[k := line]))"
  shows "r \<in> set (currRefs g) \<or> r \<in> set (map currRef line)"
proof -
  from assms(2) obtain x where x: "x \<in> set (concat (g[k := line]))" "r = currRef x"
    by (auto simp: currRefs_def)
  with set_concat_update [OF assms(1), of line] have "x \<in> set (concat g) \<or> x \<in> set line" by blast
  with x(2) show ?thesis by (auto simp: currRefs_def)
qed

lemma animateLinesR_sim:
  assumes "animateLinesR mp k g h = (g', h')" "apart g h" "pointerApart mp g h"
  shows "map (map (load h')) g' = animateLines (map_option (cells h) mp) k (map (map (load h)) g) \<and>
    apart g' h' \<and> pointerApart mp g' h' \<and> map_option (cells h') mp = map_option (cells h) mp"
  using assms
proof (induction mp k g h rule: animateLinesR.induct)
  case (1 mp k g h)
  let ?mpv = "map_option (cells h) mp"
  show ?case
  proof (cases "k < length g - 1")
    case False
    with "1.prems"(1) have "g' = g" "h' = h" by (subst (asm) animateLinesR.simps, simp)+
    with False "1.prems" show ?thesis by (subst animateLines.simps) simp
  next
    case True
    obtain l1 h1 where a: "animateLineR mp 0 (g ! k) h = (l1, h1)"
      by (cases "animateLineR mp 0 (g ! k) h")
    with True "1.prems"(1) have rest: "animateLinesR mp (Suc k) (g[k := l1]) h1 = (g', h')"
      by (subst (asm) animateLinesR.simps) simp
    have kl: "k < length g" using True by simp
    let ?l = "g ! k"
    have dg: "distinct (concat (map (map currRef) g))"
      using "1.prems"(2) by (simp add: apart_def currRefs_concat)
    have lt: "r < fresh h" if "r \<in> set (currRefs g)" for r
      using "1.prems"(2) that by (simp add: apart_def)
    have ra: "r < fresh h \<and> r \<notin> set (currRefs g)" if "r \<in> set (orgRefs g)" for r
      using "1.prems"(2) that by (simp add: apart_def restApart_def)
    have subc: "set (map currRef ?l) \<subseteq> set (currRefs g)"
      using set_nth_concat [OF kl] by (auto simp: currRefs_def)
    have subo: "set (map orgRef ?l) \<subseteq> set (orgRefs g)"
      using set_nth_concat [OF kl] by (auto simp: orgRefs_def)
    have dl: "distinct (map currRef ?l)"
      using dg kl by (metis distinct_concat_iff length_map nth_map nth_mem)
    have bl: "\<forall>n \<in> set ?l. orgRef n < fresh h \<and> currRef n < fresh h \<and>
        orgRef n \<notin> set (map currRef ?l)"
    proof
      fix n assume n: "n \<in> set ?l"
      then have "orgRef n \<in> set (orgRefs g)" "currRef n \<in> set (currRefs g)"
        using subo subc by auto
      with ra lt subc show "orgRef n < fresh h \<and> currRef n < fresh h \<and>
        orgRef n \<notin> set (map currRef ?l)" by blast
    qed
    have ml: "\<forall>m. mp = Some m \<longrightarrow> m < fresh h \<and> m \<notin> set (map currRef ?l)"
      using "1.prems"(3) subc by (auto simp: pointerApart_def)
    note sm = animateLineR_sim [OF a dl bl ml]
    note f = animateLineR_frame [OF a]
    have fr: "fresh h \<le> fresh h1" using f by simp
    have new: "r \<in> set (map currRef ?l) \<or> fresh h \<le> r" if "r \<in> set (map currRef l1)" for r
      using f that by blast
    have cr: "r \<in> set (currRefs g) \<or> fresh h \<le> r" if "r \<in> set (currRefs (g[k := l1]))" for r
      using currRefs_update [OF kl that] new subc by auto
    have og: "orgRefs (g[k := l1]) = orgRefs g"
    proof -
      have "map (map orgRef) (g[k := l1]) = map (map orgRef) g"
        using f kl by (simp add: map_update list_update_same_conv)
      then show ?thesis by (simp add: orgRefs_map)
    qed
    have ap1: "apart (g[k := l1]) h1"
      unfolding apart_def
    proof (intro conjI)
      show "restApart (g[k := l1]) h1"
        unfolding restApart_def og
      proof
        fix r assume "r \<in> set (orgRefs g)"
        from ra [OF this] cr [of r] fr
        show "r < fresh h1 \<and> r \<notin> set (currRefs (g[k := l1]))" by auto
      qed
    next
      have "distinct (concat ((map (map currRef) g)[k := map currRef l1]))"
      proof (rule distinct_concat_update [OF dg])
        show "k < length (map (map currRef) g)" using kl by simp
        show "distinct (map currRef l1)" using sm by simp
        show "\<forall>y \<in> set (map currRef l1).
            y \<in> set (map (map currRef) g ! k) \<or> y \<notin> set (concat (map (map currRef) g))"
        proof
          fix y assume "y \<in> set (map currRef l1)"
          from new [OF this] consider "y \<in> set (map currRef ?l)" | "fresh h \<le> y" by blast
          then show "y \<in> set (map (map currRef) g ! k) \<or>
              y \<notin> set (concat (map (map currRef) g))"
          proof cases
            case 1
            then show ?thesis using kl by simp
          next
            case 2
            have "y \<notin> set (currRefs g)" using lt [of y] 2 by auto
            then show ?thesis by (simp add: currRefs_concat)
          qed
        qed
      qed
      then show "distinct (currRefs (g[k := l1]))"
        by (simp add: currRefs_concat map_update)
    next
      show "\<forall>r \<in> set (currRefs (g[k := l1])). r < fresh h1"
      proof
        fix r assume "r \<in> set (currRefs (g[k := l1]))"
        from currRefs_update [OF kl this] lt [of r] sm fr show "r < fresh h1" by auto
      qed
    qed
    have mv: "map_option (cells h1) mp = ?mpv"
    proof (cases mp)
      case None then show ?thesis by simp
    next
      case (Some m)
      with ml f show ?thesis by simp
    qed
    have pa1: "pointerApart mp (g[k := l1]) h1"
    proof (cases mp)
      case None then show ?thesis by (simp add: pointerApart_def)
    next
      case (Some m)
      with "1.prems"(3) have m: "m < fresh h" "m \<notin> set (currRefs g)"
        by (simp_all add: pointerApart_def)
      with cr [of m] fr Some show ?thesis by (auto simp: pointerApart_def)
    qed
    note ih = "1.IH" [OF True a [symmetric] refl rest ap1 pa1]
    have ld: "map (map (load h1)) (g[k := l1]) =
        (map (map (load h)) g)[k := animateLine ?mpv 0 (map (map (load h)) g ! k)]"
    proof (rule nth_equalityI)
      show "length (map (map (load h1)) (g[k := l1])) =
          length ((map (map (load h)) g)[k := animateLine ?mpv 0 (map (map (load h)) g ! k)])"
        by simp
    next
      fix i assume "i < length (map (map (load h1)) (g[k := l1]))"
      then have il: "i < length g" by simp
      show "map (map (load h1)) (g[k := l1]) ! i =
          (map (map (load h)) g)[k := animateLine ?mpv 0 (map (map (load h)) g ! k)] ! i"
      proof (cases "i = k")
        case True
        then show ?thesis using kl sm by simp
      next
        case False
        have "map (load h1) (g ! i) = map (load h) (g ! i)"
        proof (rule map_cong [OF refl])
          fix n assume n: "n \<in> set (g ! i)"
          then have "n \<in> set (concat g)" using set_nth_concat [OF il] by auto
          then have io: "orgRef n \<in> set (orgRefs g)" and ic: "currRef n \<in> set (currRefs g)"
            by (auto simp: orgRefs_def currRefs_def)
          have "set (map (map currRef) g ! i) \<inter> set (map (map currRef) g ! k) = {}"
            using dg il kl False by (intro distinct_concat_lines) simp_all
          then have "currRef n \<notin> set (map currRef ?l)" using n il kl by auto
          moreover have "orgRef n \<notin> set (map currRef ?l)" using ra [OF io] subc by auto
          moreover have "orgRef n < fresh h" "currRef n < fresh h" using ra [OF io] lt [OF ic] by auto
          ultimately show "load h1 n = load h n" using f by (simp add: load_def)
        qed
        then show ?thesis using False il by simp
      qed
    qed
    have "animateLines ?mpv k (map (map (load h)) g) =
        animateLines ?mpv (Suc k)
          ((map (map (load h)) g)[k := animateLine ?mpv 0 (map (map (load h)) g ! k)])"
      using True by (subst animateLines.simps) simp
    with ih mv ld show ?thesis by simp
  qed
qed

lemma animateGridR_sim:
  assumes "apart g h" "pointerApart mp g h" "animateGridR g mp h = (g', h')"
  shows "map (map (load h')) g' = animateGrid (map (map (load h)) g) (map_option (cells h) mp) \<and>
    apart g' h' \<and> pointerApart mp g' h'"
  using animateLinesR_sim [OF assms(3) [unfolded animateGridR_def] assms(1,2)]
  by (simp add: animateGrid_def)

lemma storeLine_distinct:
  assumes "storeLine line h = (ns, h')"
  shows "distinct (map currRef ns)"
  using assms
proof (induction line arbitrary: h ns h')
  case Nil
  then show ?case by simp
next
  case (Cons nd line)
  obtain n h1 where sn: "storeNode nd h = (n, h1)" by (cases "storeNode nd h")
  obtain ns' h2 where sl: "storeLine line h1 = (ns', h2)" by (cases "storeLine line h1")
  from Cons.prems sn sl have e: "ns = n # ns'" by simp
  have "even (fresh h1 - fresh h1)" "fresh h1 \<le> fresh h1" by simp_all
  from storeLine_props [OF sl this] have "\<forall>n' \<in> set ns'. fresh h1 \<le> currRef n'" by simp
  moreover have "currRef n < fresh h1" using storeNode_props [OF sn] by simp
  ultimately have "currRef n \<notin> set (map currRef ns')" by auto
  with Cons.IH [OF sl] show ?case unfolding e by simp
qed

lemma storeGrid_distinct:
  assumes "storeGrid g h = (rg, h')"
  shows "distinct (currRefs rg)"
  using assms
proof (induction g arbitrary: h rg h')
  case Nil
  then show ?case by (simp add: currRefs_def)
next
  case (Cons line g)
  obtain l h1 where sl: "storeLine line h = (l, h1)" by (cases "storeLine line h")
  obtain ls h2 where sg: "storeGrid g h1 = (ls, h2)" by (cases "storeGrid g h1")
  from Cons.prems sl sg have e: "rg = l # ls" by simp
  have z: "even (fresh h - fresh h)" "fresh h \<le> fresh h" by simp_all
  have z1: "even (fresh h1 - fresh h1)" "fresh h1 \<le> fresh h1" by simp_all
  from storeLine_props [OF sl z] have a: "\<forall>n \<in> set l. currRef n < fresh h1" by simp
  from storeGrid_props [OF sg z1] have b: "\<forall>n \<in> set (concat ls). fresh h1 \<le> currRef n" by simp
  have "set (map currRef l) \<inter> set (currRefs ls) = {}"
    using a b by (fastforce simp: currRefs_def)
  with storeLine_distinct [OF sl] Cons.IH [OF sg] show ?case
    unfolding e by (simp add: currRefs_def)
qed

lemma storeGrid_apart:
  assumes "storeGrid g h = (rg, h')"
  shows "apart rg h'"
proof -
  have "even (fresh h - fresh h)" "fresh h \<le> fresh h" by simp_all
  from storeGrid_props [OF assms this] have "\<forall>r \<in> set (currRefs rg). r < fresh h'"
    by (auto simp: currRefs_def)
  with storeGrid_restApart [OF assms] storeGrid_distinct [OF assms] show ?thesis
    by (simp add: apart_def)
qed

lemma newGridR_apart:
  assumes "newGridR rnd cv s k h0 = Inr ((g, h), k')"
  shows "apart g h \<and> newGrid rnd cv s k = Inr (map (map (load h)) g, k')"
  using assms storeGrid_apart storeGrid_restApart
  by (auto simp: newGridR_def split: sum.splits prod.splits)

lemma run_apart:
  assumes "run st st'" "st = (g0, h0, m0)" "st' = (g, h, m)" "apart g0 h0" "pointerApart m0 g0 h0"
  shows "apart g h \<and> pointerApart m g h"
  using assms
proof (induction arbitrary: g h m rule: run.induct)
  case (start st)
  then show ?case by simp
next
  case (pointer st g1 h1 m1 p r h')
  from pointer.prems pointer.hyps(2) have e: "g = g1" "h = h'" "m = Some r"
    "r = fresh h1" "fresh h' = Suc (fresh h1)"
    by (auto simp: newPoint_def)
  from pointer.IH [OF pointer.prems(1) refl pointer.prems(3,4)] have ap: "apart g1 h1" by simp
  then have "apart g1 h'"
    unfolding apart_def restApart_def e(5) by (auto intro: less_SucI)
  moreover have "pointerApart (Some r) g1 h'"
    using ap unfolding pointerApart_def apart_def e(4,5) by auto
  ultimately show ?case unfolding e(1,2,3) by simp
next
  case (frame st g1 h1 m1 g' h')
  from frame.prems have e: "g = g'" "h = h'" "m = m1" by simp_all
  from frame.IH [OF frame.prems(1) refl frame.prems(3,4)]
  have "apart g1 h1" "pointerApart m1 g1 h1" by simp_all
  from animateGridR_sim [OF this frame.hyps(2)] show ?case unfolding e by simp
qed

text \<open>
  The store model agrees with the value model. The state \<^verbatim>\<open>newGrid\<close> returns has its
  positions apart, every state the driving code reaches from it has its positions
  and its pointer apart, and in such a state \<^verbatim>\<open>animateGrid\<close> on the store computes
  what \<open>animateGrid\<close> computes on the values of the nodes.
\<close>

lemma store_agrees_with_values:
  assumes "newGridR rnd cv s k h0 = Inr ((g0, h1), k')" "run (g0, h1, None) (g, h, m)"
    "animateGridR g m h = (g', h')"
  shows "newGrid rnd cv s k = Inr (map (map (load h1)) g0, k') \<and>
    map (map (load h')) g' = animateGrid (map (map (load h)) g) (map_option (cells h) m)"
proof -
  from newGridR_apart [OF assms(1)] have a: "apart g0 h1" and
    n: "newGrid rnd cv s k = Inr (map (map (load h1)) g0, k')" by simp_all
  have "pointerApart None g0 h1" by (simp add: pointerApart_def)
  from run_apart [OF assms(2) refl refl a this] have "apart g h" "pointerApart m g h" by simp_all
  from animateGridR_sim [OF this assms(3)] n show ?thesis by simp
qed

end
